theory Spec2Isabelle
  imports Main "HOL-Library.List_Lexorder"
begin

section \<open>Element types\<close>

text \<open>
  Both classes are templates over \<open>Type\<close>. What the code needs from an element type is
  its default value \<open>Type()\<close> and what a move leaves behind: after \<open>y = std::move(x)\<close>
  the target holds the old value of \<open>x\<close> and \<open>x\<close> holds \<open>moved T x\<close>. For \<open>int\<close> a move is a
  copy (\<open>moved = id\<close>); for a type like \<open>std::string\<close> the source is left empty.
  Copy assignment leaves its source as it is.
\<close>

record 'a elem_type =
  dflt :: 'a
  moved :: "'a \<Rightarrow> 'a"

definition int_type :: "int elem_type" where
  "int_type = \<lparr>dflt = 0, moved = (\<lambda>x. x)\<rparr>"

definition string_type :: "string elem_type" where
  "string_type = \<lparr>dflt = [], moved = (\<lambda>x. [])\<rparr>"

text \<open>
  An element type that records in its source how often it was moved from:
  \<open>struct Counted { size_t n = 0; Counted& operator=(Counted&& o) { n = o.n; ++o.n; return *this; } }\<close>.
\<close>

definition counting_type :: "nat elem_type" where
  "counting_type = \<lparr>dflt = 0, moved = Suc\<rparr>"

text \<open>
  \<open>size_t\<close> values are natural numbers: every size and capacity of the code is the
  length of an allocated array or at most twice one, which the address space bounds
  far below the point where \<open>size_t\<close> wraps. Allocation is taken to succeed.
  What C++ leaves undefined (an index outside the allocated block, an iterator
  range whose end lies before its start) is the error \<open>undefined_behaviour\<close>;
  \<open>out_of_range\<close> is the exception \<open>std::out_of_range\<close>.
\<close>

datatype error = out_of_range | undefined_behaviour

section \<open>array\_ptr.h\<close>

text \<open>
  An \<open>ArrayPtr\<close> owns one heap block or none. The block is the list of its elements;
  \<open>nullptr\<close> is the empty list, as the constructors never allocate a block of length 0.
\<close>

type_synonym 'a ArrayPtr = "'a list"

text \<open>\<open>dst = std::move(src)\<close> on two slots of one block.\<close>

definition move_assign :: "'a elem_type \<Rightarrow> nat \<Rightarrow> nat \<Rightarrow> 'a list \<Rightarrow> 'a list" where
  "move_assign T dst src raw = (let x = raw ! src in (raw[dst := x])[src := moved T x])"

text \<open>\<open>new Type[size]\<close>: every slot is overwritten before it is read.\<close>

definition new_array :: "'a elem_type \<Rightarrow> nat \<Rightarrow> 'a list" where
  "new_array T sz = replicate sz (dflt T)"

text \<open>\<open>explicit ArrayPtr(size_t size)\<close>\<close>

definition ArrayPtr_size :: "'a elem_type \<Rightarrow> nat \<Rightarrow> 'a ArrayPtr" where
  "ArrayPtr_size T sz =
     (if sz \<noteq> 0
      then fold (\<lambda>i raw. raw[i := dflt T]) [0..<sz] (new_array T sz)
      else [])"

text \<open>\<open>explicit ArrayPtr(size_t size, const Type& value)\<close>\<close>

definition ArrayPtr_value :: "'a elem_type \<Rightarrow> nat \<Rightarrow> 'a \<Rightarrow> 'a ArrayPtr" where
  "ArrayPtr_value T sz v =
     (if sz \<noteq> 0
      then fold (\<lambda>i raw. raw[i := v]) [0..<sz] (ArrayPtr_size T sz)
      else ArrayPtr_size T sz)"

text \<open>
  \<open>explicit ArrayPtr(size_t size, Type&& value)\<close>: the loop state is the block and
  the argument, which every iteration moves from. The result is the block and the
  argument as the caller finds it afterwards.
\<close>

definition ArrayPtr_rvalue :: "'a elem_type \<Rightarrow> nat \<Rightarrow> 'a \<Rightarrow> 'a ArrayPtr \<times> 'a" where
  "ArrayPtr_rvalue T sz v =
     (if sz \<noteq> 0
      then fold (\<lambda>i (raw, val). (raw[i := val], moved T val)) [0..<sz] (ArrayPtr_size T sz, v)
      else (ArrayPtr_size T sz, v))"

text \<open>\<open>ArrayPtr(ArrayPtr&& other)\<close>: the new owner and what is left of \<open>other\<close>.\<close>

definition ArrayPtr_move :: "'a ArrayPtr \<Rightarrow> 'a ArrayPtr \<times> 'a ArrayPtr" where
  "ArrayPtr_move other = (other, [])"

text \<open>\<open>void swap(ArrayPtr& other)\<close>\<close>

definition ArrayPtr_swap :: "'a ArrayPtr \<Rightarrow> 'a ArrayPtr \<Rightarrow> 'a ArrayPtr \<times> 'a ArrayPtr" where
  "ArrayPtr_swap this other = (other, this)"

section \<open>Standard algorithms on one block\<close>

text \<open>
  Iterators are positions in the block, counted from \<open>begin()\<close>.
  \<open>std::move(first, last, d_first)\<close> assigns front to back,
  \<open>std::move_backward(first, last, d_last)\<close> back to front,
  \<open>std::copy\<close> reads from a range that is not written.
  Each is called with \<open>first \<le> last\<close> only; the callers check it (\<open>lst\<close> is \<open>last\<close>).
\<close>

definition std_move :: "'a elem_type \<Rightarrow> nat \<Rightarrow> nat \<Rightarrow> nat \<Rightarrow> 'a list \<Rightarrow> 'a list" where
  "std_move T first lst d_first raw =
     fold (\<lambda>k b. move_assign T (d_first + (k - first)) k b) [first..<lst] raw"

definition std_move_backward :: "'a elem_type \<Rightarrow> nat \<Rightarrow> nat \<Rightarrow> nat \<Rightarrow> 'a list \<Rightarrow> 'a list" where
  "std_move_backward T first lst d_last raw =
     fold (\<lambda>k b. move_assign T (d_last - (lst - k)) k b) (rev [first..<lst]) raw"

definition std_copy :: "'a list \<Rightarrow> nat \<Rightarrow> 'a list \<Rightarrow> 'a list" where
  "std_copy src d_first raw =
     fold (\<lambda>k b. b[d_first + k := src ! k]) [0..<length src] raw"

text \<open>
  \<open>std::equal\<close> with four random-access iterators compares the lengths first;
  \<open>std::lexicographical_compare\<close> walks both ranges with the elements' \<open><\<close>.
\<close>

fun equal_loop :: "'a list \<Rightarrow> 'a list \<Rightarrow> bool" where
  "equal_loop (x # xs) (y # ys) = (if \<not> (x = y) then False else equal_loop xs ys)"
| "equal_loop _ _ = True"

definition std_equal :: "'a list \<Rightarrow> 'a list \<Rightarrow> bool" where
  "std_equal xs ys = (if length xs \<noteq> length ys then False else equal_loop xs ys)"

fun std_lexicographical_compare :: "('a::ord) list \<Rightarrow> 'a list \<Rightarrow> bool" where
  "std_lexicographical_compare (x # xs) (y # ys) =
     (if x < y then True else if y < x then False else std_lexicographical_compare xs ys)"
| "std_lexicographical_compare [] (y # ys) = True"
| "std_lexicographical_compare _ [] = False"

section \<open>simple\_vector.h\<close>

text \<open>The members \<open>items_\<close>, \<open>size_\<close> and \<open>capacity_\<close>.\<close>

record 'a SimpleVector =
  m_items :: "'a ArrayPtr"
  m_size :: nat
  m_capacity :: nat

text \<open>The range \<open>[begin(), end())\<close>: the first \<open>size_\<close> slots of the block.\<close>

definition contents :: "'a SimpleVector \<Rightarrow> 'a list" where
  "contents s = take (m_size s) (m_items s)"

definition GetSize :: "'a SimpleVector \<Rightarrow> nat" where
  "GetSize s = m_size s"

definition GetCapacity :: "'a SimpleVector \<Rightarrow> nat" where
  "GetCapacity s = m_capacity s"

definition IsEmpty :: "'a SimpleVector \<Rightarrow> bool" where
  "IsEmpty s = (m_size s = 0)"

text \<open>\<open>SimpleVector() noexcept = default\<close>\<close>

definition SimpleVector_default :: "'a SimpleVector" where
  "SimpleVector_default = \<lparr>m_items = [], m_size = 0, m_capacity = 0\<rparr>"

text \<open>\<open>explicit SimpleVector(size_t size)\<close>\<close>

definition SimpleVector_size :: "'a elem_type \<Rightarrow> nat \<Rightarrow> 'a SimpleVector" where
  "SimpleVector_size T sz = \<lparr>m_items = ArrayPtr_size T sz, m_size = sz, m_capacity = sz\<rparr>"

text \<open>\<open>explicit SimpleVector(size_t size, const Type& value)\<close>\<close>

definition SimpleVector_value :: "'a elem_type \<Rightarrow> nat \<Rightarrow> 'a \<Rightarrow> 'a SimpleVector" where
  "SimpleVector_value T sz v =
     \<lparr>m_items = ArrayPtr_value T sz v, m_size = sz, m_capacity = sz\<rparr>"

text \<open>\<open>void swap(SimpleVector& other) noexcept\<close>: the new \<open>*this\<close> and the new \<open>other\<close>.\<close>

definition swap_vec :: "'a SimpleVector \<Rightarrow> 'a SimpleVector \<Rightarrow> 'a SimpleVector \<times> 'a SimpleVector" where
  "swap_vec this other =
     (let (i1, i2) = ArrayPtr_swap (m_items this) (m_items other) in
      (\<lparr>m_items = i1, m_size = m_size other, m_capacity = m_capacity other\<rparr>,
       \<lparr>m_items = i2, m_size = m_size this, m_capacity = m_capacity this\<rparr>))"

text \<open>
  \<open>void IncreaseCapacity(size_t new_capacity)\<close>. The temporary \<open>Type()\<close> is an rvalue, so
  \<open>new_items\<close> is built by the \<open>Type&&\<close> constructor. The loop moves slot by slot
  out of the old block, which is freed when \<open>new_items\<close> goes out of scope.
\<close>

definition IncreaseCapacity :: "'a elem_type \<Rightarrow> nat \<Rightarrow> 'a SimpleVector \<Rightarrow> error + 'a SimpleVector" where
  "IncreaseCapacity T new_capacity s =
     (let new_items = fst (ArrayPtr_rvalue T new_capacity (dflt T)) in
      if m_size s \<le> length new_items \<and> m_size s \<le> length (m_items s)
      then
        let (new_items, old_items) =
              fold (\<lambda>i (n, old). (n[i := old ! i], old[i := moved T (old ! i)]))
                [0..<m_size s] (new_items, m_items s);
            (i1, i2) = ArrayPtr_swap old_items new_items
        in Inr (s\<lparr>m_items := i1, m_capacity := new_capacity\<rparr>)
      else Inl undefined_behaviour)"

text \<open>
  \<open>template <typename Other> void CopyAndSwap(const Other& other)\<close>: \<open>other\<close> is a
  vector or an initializer list; \<open>xs\<close> is its range \<open>[begin(), end())\<close>.
\<close>

definition CopyAndSwap :: "'a elem_type \<Rightarrow> 'a list \<Rightarrow> 'a SimpleVector \<Rightarrow> 'a SimpleVector" where
  "CopyAndSwap T xs s =
     (let c = SimpleVector_size T (length xs);
          c = c\<lparr>m_items := std_copy xs 0 (m_items c)\<rparr>
      in fst (swap_vec s c))"

text \<open>\<open>explicit SimpleVector(const SimpleVector& other)\<close>\<close>

definition SimpleVector_copy :: "'a elem_type \<Rightarrow> 'a SimpleVector \<Rightarrow> error + 'a SimpleVector" where
  "SimpleVector_copy T other =
     (let this = \<lparr>m_items = ArrayPtr_size T (m_size other), m_size = m_size other,
                  m_capacity = m_capacity other\<rparr>
      in if m_size other \<le> length (m_items other)
         then Inr (CopyAndSwap T (contents other) this)
         else Inl undefined_behaviour)"

text \<open>\<open>explicit SimpleVector(std::initializer_list<Type> init)\<close>\<close>

definition SimpleVector_init :: "'a elem_type \<Rightarrow> 'a list \<Rightarrow> 'a SimpleVector" where
  "SimpleVector_init T init = CopyAndSwap T init SimpleVector_default"

text \<open>\<open>explicit SimpleVector(const ReserveProxyObj& capacity)\<close>\<close>

definition SimpleVector_reserve :: "'a elem_type \<Rightarrow> nat \<Rightarrow> error + 'a SimpleVector" where
  "SimpleVector_reserve T capacity_to_reserve =
     IncreaseCapacity T capacity_to_reserve SimpleVector_default"

text \<open>\<open>SimpleVector(SimpleVector&& other) noexcept\<close>: the new vector and what is left of \<open>other\<close>.\<close>

definition SimpleVector_move :: "'a SimpleVector \<Rightarrow> 'a SimpleVector \<times> 'a SimpleVector" where
  "SimpleVector_move other =
     (let (i1, i2) = ArrayPtr_move (m_items other) in
      (\<lparr>m_items = i1, m_size = m_size other, m_capacity = m_capacity other\<rparr>,
       \<lparr>m_items = i2, m_size = 0, m_capacity = 0\<rparr>))"

text \<open>\<open>void Clear() noexcept\<close>\<close>

definition Clear :: "'a SimpleVector \<Rightarrow> 'a SimpleVector" where
  "Clear s = s\<lparr>m_size := 0\<rparr>"

text \<open>
  The two assignment operators compare addresses. Objects live in a store from
  addresses to vectors; \<open>this\<close> and the right-hand side are addresses.
\<close>

type_synonym 'a store = "nat \<Rightarrow> 'a SimpleVector"

text \<open>\<open>SimpleVector& operator=(const SimpleVector& rhs)\<close>\<close>

definition assign_copy :: "'a elem_type \<Rightarrow> nat \<Rightarrow> nat \<Rightarrow> 'a store \<Rightarrow> error + 'a store" where
  "assign_copy T this rhs st =
     (if this \<noteq> rhs
      then case SimpleVector_copy T (st rhs) of
             Inl e \<Rightarrow> Inl e
           | Inr temp \<Rightarrow> Inr (st(this := fst (swap_vec (st this) temp)))
      else Inr st)"

text \<open>\<open>SimpleVector& operator=(SimpleVector&& other) noexcept\<close>\<close>

definition assign_move :: "nat \<Rightarrow> nat \<Rightarrow> 'a store \<Rightarrow> 'a store" where
  "assign_move this other st =
     (if this \<noteq> other
      then let cleared = Clear (st this);
               (t, other') = SimpleVector_move (st other)
           in st(other := other', this := fst (swap_vec cleared t))
      else st)"

text \<open>\<open>void IsSizeEqualsCapacity()\<close>\<close>

definition IsSizeEqualsCapacity :: "'a elem_type \<Rightarrow> 'a SimpleVector \<Rightarrow> error + 'a SimpleVector" where
  "IsSizeEqualsCapacity T s =
     (if m_size s = m_capacity s
      then let new_capacity = (if m_capacity s = 0 then 1 else 2 * m_capacity s)
           in IncreaseCapacity T new_capacity s
      else Inr s)"

text \<open>\<open>void Reserve(size_t capacity)\<close>\<close>

definition Reserve :: "'a elem_type \<Rightarrow> nat \<Rightarrow> 'a SimpleVector \<Rightarrow> error + 'a SimpleVector" where
  "Reserve T capacity s =
     (if m_capacity s < capacity then IncreaseCapacity T capacity s else Inr s)"

text \<open>\<open>void PushBack(const Type& item)\<close>\<close>

definition PushBack :: "'a elem_type \<Rightarrow> 'a \<Rightarrow> 'a SimpleVector \<Rightarrow> error + 'a SimpleVector" where
  "PushBack T item s =
     (case IsSizeEqualsCapacity T s of
        Inl e \<Rightarrow> Inl e
      | Inr s1 \<Rightarrow>
          if m_size s1 < length (m_items s1)
          then Inr (s1\<lparr>m_items := (m_items s1)[m_size s1 := item], m_size := m_size s1 + 1\<rparr>)
          else Inl undefined_behaviour)"

text \<open>\<open>void PushBack(Type&& item)\<close>: also returns the argument as the caller finds it.\<close>

definition PushBack_rvalue ::
  "'a elem_type \<Rightarrow> 'a \<Rightarrow> 'a SimpleVector \<Rightarrow> error + ('a SimpleVector \<times> 'a)" where
  "PushBack_rvalue T item s =
     (case IsSizeEqualsCapacity T s of
        Inl e \<Rightarrow> Inl e
      | Inr s1 \<Rightarrow>
          if m_size s1 < length (m_items s1)
          then Inr (s1\<lparr>m_items := (m_items s1)[m_size s1 := item], m_size := m_size s1 + 1\<rparr>,
                    moved T item)
          else Inl undefined_behaviour)"

text \<open>
  \<open>Iterator Insert(ConstIterator pos, const Type& value)\<close>: \<open>pos\<close> is given as
  \<open>pos - begin()\<close>, and so is the iterator returned.
\<close>

definition Insert ::
  "'a elem_type \<Rightarrow> nat \<Rightarrow> 'a \<Rightarrow> 'a SimpleVector \<Rightarrow> error + (nat \<times> 'a SimpleVector)" where
  "Insert T pos v s =
     (let pos_index = pos in
      case IsSizeEqualsCapacity T s of
        Inl e \<Rightarrow> Inl e
      | Inr s1 \<Rightarrow>
          let new_pos = pos_index in
          if new_pos \<le> m_size s1 \<and> m_size s1 < length (m_items s1)
          then let raw = std_move_backward T new_pos (m_size s1) (m_size s1 + 1) (m_items s1);
                   raw = raw[new_pos := v]
               in Inr (new_pos, s1\<lparr>m_items := raw, m_size := m_size s1 + 1\<rparr>)
          else Inl undefined_behaviour)"

text \<open>\<open>Iterator Insert(ConstIterator pos, Type&& value)\<close>\<close>

definition Insert_rvalue ::
  "'a elem_type \<Rightarrow> nat \<Rightarrow> 'a \<Rightarrow> 'a SimpleVector \<Rightarrow> error + (nat \<times> 'a SimpleVector \<times> 'a)" where
  "Insert_rvalue T pos v s =
     (let pos_index = pos in
      case IsSizeEqualsCapacity T s of
        Inl e \<Rightarrow> Inl e
      | Inr s1 \<Rightarrow>
          let new_pos = pos_index in
          if new_pos \<le> m_size s1 \<and> m_size s1 < length (m_items s1)
          then let raw = std_move_backward T new_pos (m_size s1) (m_size s1 + 1) (m_items s1);
                   raw = raw[new_pos := v]
               in Inr (new_pos, s1\<lparr>m_items := raw, m_size := m_size s1 + 1\<rparr>, moved T v)
          else Inl undefined_behaviour)"

text \<open>\<open>void PopBack() noexcept\<close>\<close>

definition PopBack :: "'a SimpleVector \<Rightarrow> 'a SimpleVector" where
  "PopBack s = (if m_size s > 0 then s\<lparr>m_size := m_size s - 1\<rparr> else s)"

text \<open>\<open>Iterator Erase(ConstIterator pos)\<close>\<close>

definition Erase ::
  "'a elem_type \<Rightarrow> nat \<Rightarrow> 'a SimpleVector \<Rightarrow> error + (nat \<times> 'a SimpleVector)" where
  "Erase T pos s =
     (if m_size s > 0
      then let index = pos in
           if index + 1 \<le> m_size s \<and> m_size s \<le> length (m_items s)
           then Inr (pos, s\<lparr>m_items := std_move T (index + 1) (m_size s) index (m_items s),
                            m_size := m_size s - 1\<rparr>)
           else Inl undefined_behaviour
      else Inr (pos, s))"

text \<open>
  \<open>Type& At(size_t index)\<close> and its \<open>const\<close> overload: the result and the vector
  afterwards.
\<close>

definition At :: "nat \<Rightarrow> 'a SimpleVector \<Rightarrow> (error + 'a) \<times> 'a SimpleVector" where
  "At index s =
     (if index \<ge> m_size s then (Inl out_of_range, s)
      else if index < length (m_items s) then (Inr (m_items s ! index), s)
      else (Inl undefined_behaviour, s))"

text \<open>\<open>void Resize(size_t new_size)\<close>\<close>

definition Resize :: "'a elem_type \<Rightarrow> nat \<Rightarrow> 'a SimpleVector \<Rightarrow> error + 'a SimpleVector" where
  "Resize T new_size s =
     (if new_size > m_capacity s
      then case IncreaseCapacity T (max new_size (m_capacity s * 2)) s of
             Inl e \<Rightarrow> Inl e
           | Inr s1 \<Rightarrow> Inr (s1\<lparr>m_size := new_size\<rparr>)
      else if new_size > m_size s
      then if new_size \<le> length (m_items s)
           then Inr (s\<lparr>m_items := fold (\<lambda>i raw. raw[i := dflt T]) [m_size s..<new_size] (m_items s),
                       m_size := new_size\<rparr>)
           else Inl undefined_behaviour
      else Inr (s\<lparr>m_size := new_size\<rparr>))"

text \<open>The comparison operators.\<close>

definition op_eq :: "'a SimpleVector \<Rightarrow> 'a SimpleVector \<Rightarrow> bool" where
  "op_eq lhs rhs = std_equal (contents lhs) (contents rhs)"

definition op_ne :: "'a SimpleVector \<Rightarrow> 'a SimpleVector \<Rightarrow> bool" where
  "op_ne lhs rhs = (\<not> op_eq lhs rhs)"

definition op_lt :: "('a::ord) SimpleVector \<Rightarrow> 'a SimpleVector \<Rightarrow> bool" where
  "op_lt lhs rhs = std_lexicographical_compare (contents lhs) (contents rhs)"

definition op_le :: "('a::ord) SimpleVector \<Rightarrow> 'a SimpleVector \<Rightarrow> bool" where
  "op_le lhs rhs = (\<not> op_lt rhs lhs)"

definition op_gt :: "('a::ord) SimpleVector \<Rightarrow> 'a SimpleVector \<Rightarrow> bool" where
  "op_gt lhs rhs = op_lt rhs lhs"

definition op_ge :: "('a::ord) SimpleVector \<Rightarrow> 'a SimpleVector \<Rightarrow> bool" where
  "op_ge lhs rhs = (\<not> op_lt lhs rhs)"

section \<open>The representation invariant\<close>

text \<open>
  The block has exactly \<open>capacity_\<close> slots and the logical size does not exceed it.
\<close>

definition vec_inv :: "'a SimpleVector \<Rightarrow> bool" where
  "vec_inv s = (m_size s \<le> m_capacity s \<and> length (m_items s) = m_capacity s)"

section \<open>Histories of a vector\<close>


text \<open>
  \<open>reach T n s\<close>: the vector \<open>s\<close> is the outcome of a constructor followed by finitely
  many operations, none of which ran into undefined behaviour, and \<open>n\<close> counts its
  elements the way the specification does: a constructor starts the count at the
  number of elements it creates, \<open>PushBack\<close> and \<open>Insert\<close> add one, \<open>PopBack\<close> and
  \<open>Erase\<close> take one away if there is one, \<open>Clear\<close> takes all away, \<open>Resize(k)\<close>
  pushes or pops up to \<open>k\<close>, and swapping or moving hands the count over with
  the elements. Operations on two objects are applied to distinct objects; on
  one and the same object \<open>swap\<close> and both assignments change nothing.
\<close>

inductive reach :: "'a elem_type \<Rightarrow> nat \<Rightarrow> 'a SimpleVector \<Rightarrow> bool" for T :: "'a elem_type" where
  r_default: "reach T 0 SimpleVector_default"
| r_size: "reach T n (SimpleVector_size T n)"
| r_value: "reach T n (SimpleVector_value T n v)"
| r_init: "reach T (length xs) (SimpleVector_init T xs)"
| r_reserve: "SimpleVector_reserve T c = Inr s \<Longrightarrow> reach T 0 s"
| r_copy: "reach T n other \<Longrightarrow> SimpleVector_copy T other = Inr s \<Longrightarrow> reach T n s"
| r_move: "reach T n other \<Longrightarrow> reach T n (fst (SimpleVector_move other))"
| r_moved_from: "reach T n other \<Longrightarrow> reach T 0 (snd (SimpleVector_move other))"
| r_assign_copy: "reach T n (st this) \<Longrightarrow> reach T m (st rhs) \<Longrightarrow> this \<noteq> rhs \<Longrightarrow>
     assign_copy T this rhs st = Inr st' \<Longrightarrow> reach T m (st' this)"
| r_assign_move: "reach T n (st this) \<Longrightarrow> reach T m (st other) \<Longrightarrow> this \<noteq> other \<Longrightarrow>
     reach T m (assign_move this other st this)"
| r_assign_moved_from: "reach T n (st this) \<Longrightarrow> reach T m (st other) \<Longrightarrow> this \<noteq> other \<Longrightarrow>
     reach T 0 (assign_move this other st other)"
| r_swap_this: "reach T n s \<Longrightarrow> reach T m other \<Longrightarrow> reach T m (fst (swap_vec s other))"
| r_swap_other: "reach T n s \<Longrightarrow> reach T m other \<Longrightarrow> reach T n (snd (swap_vec s other))"
| r_Reserve: "reach T n s \<Longrightarrow> Reserve T c s = Inr s' \<Longrightarrow> reach T n s'"
| r_PushBack: "reach T n s \<Longrightarrow> PushBack T x s = Inr s' \<Longrightarrow> reach T (n + 1) s'"
| r_PushBack_rvalue: "reach T n s \<Longrightarrow> PushBack_rvalue T x s = Inr (s', x') \<Longrightarrow> reach T (n + 1) s'"
| r_Insert: "reach T n s \<Longrightarrow> Insert T pos x s = Inr (it, s') \<Longrightarrow> reach T (n + 1) s'"
| r_Insert_rvalue: "reach T n s \<Longrightarrow> Insert_rvalue T pos x s = Inr (it, s', x') \<Longrightarrow>
     reach T (n + 1) s'"
| r_PopBack: "reach T n s \<Longrightarrow> reach T (n - 1) (PopBack s)"
| r_Erase: "reach T n s \<Longrightarrow> Erase T pos s = Inr (it, s') \<Longrightarrow> reach T (n - 1) s'"
| r_Clear: "reach T n s \<Longrightarrow> reach T 0 (Clear s)"
| r_Resize: "reach T n s \<Longrightarrow> Resize T k s = Inr s' \<Longrightarrow> reach T k s'"

text \<open>The slots \<open>[size, capacity)\<close> of the block all hold \<open>Type()\<close>.\<close>

definition slack_default :: "'a elem_type \<Rightarrow> 'a SimpleVector \<Rightarrow> bool" where
  "slack_default T s =
     (drop (m_size s) (m_items s) = replicate (m_capacity s - m_size s) (dflt T))"

text \<open>
  \<open>grown T s\<close>: \<open>s\<close> is the outcome of a constructor followed by finitely many
  operations that never take an element away: no \<open>PopBack\<close>, \<open>Erase\<close> or \<open>Clear\<close>, and
  \<open>Resize\<close> only to at least the current size.
\<close>

inductive grown :: "'a elem_type \<Rightarrow> 'a SimpleVector \<Rightarrow> bool" for T :: "'a elem_type" where
  g_default: "grown T SimpleVector_default"
| g_size: "grown T (SimpleVector_size T n)"
| g_value: "grown T (SimpleVector_value T n v)"
| g_init: "grown T (SimpleVector_init T xs)"
| g_reserve: "SimpleVector_reserve T c = Inr s \<Longrightarrow> grown T s"
| g_copy: "grown T other \<Longrightarrow> SimpleVector_copy T other = Inr s \<Longrightarrow> grown T s"
| g_move: "grown T other \<Longrightarrow> grown T (fst (SimpleVector_move other))"
| g_moved_from: "grown T other \<Longrightarrow> grown T (snd (SimpleVector_move other))"
| g_assign_copy: "grown T (st this) \<Longrightarrow> grown T (st rhs) \<Longrightarrow> this \<noteq> rhs \<Longrightarrow>
     assign_copy T this rhs st = Inr st' \<Longrightarrow> grown T (st' this)"
| g_assign_move: "grown T (st this) \<Longrightarrow> grown T (st other) \<Longrightarrow> this \<noteq> other \<Longrightarrow>
     grown T (assign_move this other st this)"
| g_assign_moved_from: "grown T (st this) \<Longrightarrow> grown T (st other) \<Longrightarrow> this \<noteq> other \<Longrightarrow>
     grown T (assign_move this other st other)"
| g_swap_this: "grown T s \<Longrightarrow> grown T other \<Longrightarrow> grown T (fst (swap_vec s other))"
| g_swap_other: "grown T s \<Longrightarrow> grown T other \<Longrightarrow> grown T (snd (swap_vec s other))"
| g_Reserve: "grown T s \<Longrightarrow> Reserve T c s = Inr s' \<Longrightarrow> grown T s'"
| g_PushBack: "grown T s \<Longrightarrow> PushBack T x s = Inr s' \<Longrightarrow> grown T s'"
| g_Insert: "grown T s \<Longrightarrow> Insert T pos x s = Inr (it, s') \<Longrightarrow> grown T s'"
| g_Resize: "grown T s \<Longrightarrow> m_size s \<le> k \<Longrightarrow> Resize T k s = Inr s' \<Longrightarrow> grown T s'"

section \<open>The loops in closed form\<close>

lemma fold_update_const:
  "m \<le> n \<Longrightarrow> n \<le> length b \<Longrightarrow>
   fold (\<lambda>i raw. raw[i := v]) [m..<n] b = take m b @ replicate (n - m) v @ drop n b"
proof (induction n)
  case 0
  then show ?case by simp
next
  case (Suc n)
  show ?case
  proof (cases "m = Suc n")
    case True
    then show ?thesis by simp
  next
    case False
    with Suc.prems have mn: "m \<le> n" and nl: "n < length b" by simp_all
    have "fold (\<lambda>i raw. raw[i := v]) [m..<Suc n] b
          = (take m b @ replicate (n - m) v @ drop n b)[n := v]"
      using Suc.IH mn nl by simp
    also have "\<dots> = take m b @ replicate (Suc n - m) v @ drop (Suc n) b"
      using mn nl
      by (simp add: list_update_append Suc_diff_le replicate_append_same
                    upd_conv_take_nth_drop flip: Cons_nth_drop_Suc)
    finally show ?thesis .
  qed
qed

lemma ArrayPtr_size_eq: "ArrayPtr_size T n = replicate n (dflt T)"
  by (simp add: ArrayPtr_size_def new_array_def fold_update_const)

lemma ArrayPtr_value_eq: "ArrayPtr_value T n v = replicate n v"
  by (simp add: ArrayPtr_value_def ArrayPtr_size_eq fold_update_const)

lemma rvalue_loop:
  "k \<le> length b \<Longrightarrow>
   fold (\<lambda>i (raw, val). (raw[i := val], moved T val)) [0..<k] (b, v)
   = (map (\<lambda>i. (moved T ^^ i) v) [0..<k] @ drop k b, (moved T ^^ k) v)"
proof (induction k)
  case 0
  then show ?case by simp
next
  case (Suc k)
  then have kl: "k < length b" by simp
  then show ?case
    using Suc.IH
    by (simp add: list_update_append flip: Cons_nth_drop_Suc)
qed

lemma ArrayPtr_rvalue_eq:
  "ArrayPtr_rvalue T n v = (map (\<lambda>i. (moved T ^^ i) v) [0..<n], (moved T ^^ n) v)"
  by (simp add: ArrayPtr_rvalue_def ArrayPtr_size_eq rvalue_loop)

lemma funpow_fixed: "f x = x \<Longrightarrow> (f ^^ i) x = x"
  by (induction i) simp_all

lemma migrate_loop:
  "k \<le> length new \<Longrightarrow> k \<le> length old \<Longrightarrow>
   fold (\<lambda>i (n, old). (n[i := old ! i], old[i := moved T (old ! i)])) [0..<k] (new, old)
   = (take k old @ drop k new, map (moved T) (take k old) @ drop k old)"
proof (induction k)
  case 0
  then show ?case by simp
next
  case (Suc k)
  then have "k < length new" "k < length old" by simp_all
  then show ?case
    using Suc.IH
    by (simp add: list_update_append nth_append take_Suc_conv_app_nth
             flip: Cons_nth_drop_Suc)
qed

lemma copy_loop:
  "j \<le> length src \<Longrightarrow> j \<le> length raw \<Longrightarrow>
   fold (\<lambda>k b. b[k := src ! k]) [0..<j] raw = take j src @ drop j raw"
proof (induction j)
  case 0
  then show ?case by simp
next
  case (Suc j)
  then have "j < length src" "j < length raw" by simp_all
  then show ?case
    using Suc.IH
    by (simp add: list_update_append take_Suc_conv_app_nth flip: Cons_nth_drop_Suc)
qed

lemma std_copy_eq:
  "length src \<le> length raw \<Longrightarrow> std_copy src 0 raw = src @ drop (length src) raw"
  by (simp add: std_copy_def copy_loop)

lemma move_backward_nth:
  assumes "first \<le> n" "n < length raw"
  shows "length (std_move_backward T first n (Suc n) raw) = length raw \<and>
         (\<forall>j < length raw. std_move_backward T first n (Suc n) raw ! j =
            (if first < j \<and> j \<le> n then raw ! (j - 1)
             else if j = first \<and> first < n then moved T (raw ! first)
             else raw ! j))"
  using assms
proof (induction first rule: inc_induct)
  case base
  then show ?case by (auto simp: std_move_backward_def)
next
  case (step k)
  let ?r = "std_move_backward T (Suc k) n (Suc n) raw"
  have IH: "length ?r = length raw"
    "\<And>j. j < length raw \<Longrightarrow> ?r ! j =
            (if Suc k < j \<and> j \<le> n then raw ! (j - 1)
             else if j = Suc k \<and> Suc k < n then moved T (raw ! Suc k)
             else raw ! j)"
    using step by simp_all
  have unfold: "std_move_backward T k n (Suc n) raw = move_assign T (Suc k) k ?r"
    using step.hyps by (simp add: std_move_backward_def upt_conv_Cons Suc_diff_le)
  have rk: "?r ! k = raw ! k"
    using IH(2)[of k] step by simp
  show ?case
    unfolding unfold
    using IH step.hyps step.prems rk
    by (auto simp: move_assign_def Let_def nth_list_update)
qed

lemma std_move_nth:
  assumes "idx < n" "n \<le> length raw"
  shows "length (std_move T (Suc idx) n idx raw) = length raw \<and>
         (\<forall>j < length raw. std_move T (Suc idx) n idx raw ! j =
            (if idx \<le> j \<and> Suc j < n then raw ! Suc j
             else if Suc j = n \<and> Suc idx < n then moved T (raw ! j)
             else raw ! j))"
  using assms
proof (induction n)
  case 0
  then show ?case by simp
next
  case (Suc n)
  show ?case
  proof (cases "idx = n")
    case True
    then show ?thesis by (auto simp: std_move_def)
  next
    case False
    with Suc.prems have lt: "idx < n" "n < length raw" by simp_all
    let ?r = "std_move T (Suc idx) n idx raw"
    have IH: "length ?r = length raw"
      "\<And>j. j < length raw \<Longrightarrow> ?r ! j =
            (if idx \<le> j \<and> Suc j < n then raw ! Suc j
             else if Suc j = n \<and> Suc idx < n then moved T (raw ! j)
             else raw ! j)"
      using Suc.IH lt by simp_all
    have unfold: "std_move T (Suc idx) (Suc n) idx raw = move_assign T (n - 1) n ?r"
      using lt by (simp add: std_move_def)
    have rn: "?r ! n = raw ! n"
      using IH(2)[of n] lt by simp
    show ?thesis
      unfolding unfold
      using IH lt rn
      by (auto simp: move_assign_def Let_def nth_list_update)
  qed
qed

section \<open>What each operation does to a well-formed vector\<close>

lemma IncreaseCapacity_eq:
  assumes "m_size s \<le> n" "m_size s \<le> length (m_items s)"
  shows "IncreaseCapacity T n s =
         Inr (s\<lparr>m_items := take (m_size s) (m_items s) @
                            drop (m_size s) (map (\<lambda>i. (moved T ^^ i) (dflt T)) [0..<n]),
                m_capacity := n\<rparr>)"
  using assms
  by (simp add: IncreaseCapacity_def ArrayPtr_rvalue_eq migrate_loop ArrayPtr_swap_def)

lemma IncreaseCapacity_spec:
  assumes "vec_inv s" "m_size s \<le> n"
  obtains s' where "IncreaseCapacity T n s = Inr s'" "vec_inv s'" "m_size s' = m_size s"
    "m_capacity s' = n" "contents s' = contents s"
    "drop (m_size s) (m_items s') = map (\<lambda>i. (moved T ^^ i) (dflt T)) [m_size s..<n]"
proof -
  let ?s' = "s\<lparr>m_items := take (m_size s) (m_items s) @
                            drop (m_size s) (map (\<lambda>i. (moved T ^^ i) (dflt T)) [0..<n]),
                m_capacity := n\<rparr>"
  have len: "m_size s \<le> length (m_items s)"
    using assms by (simp add: vec_inv_def)
  have "IncreaseCapacity T n s = Inr ?s'"
    using assms(2) len by (rule IncreaseCapacity_eq)
  moreover have "vec_inv ?s'"
    using assms len by (simp add: vec_inv_def)
  moreover have "contents ?s' = contents s"
    using len by (simp add: contents_def)
  moreover have "drop (m_size s) (m_items ?s') = map (\<lambda>i. (moved T ^^ i) (dflt T)) [m_size s..<n]"
    using len assms(2) by (simp add: drop_map)
  ultimately show thesis
    using that[of ?s'] by simp
qed

lemma IsSizeEqualsCapacity_spec:
  assumes "vec_inv s"
  obtains s' where "IsSizeEqualsCapacity T s = Inr s'" "vec_inv s'" "m_size s' = m_size s"
    "m_size s' < m_capacity s'" "contents s' = contents s"
    "m_capacity s' = (if m_size s = m_capacity s then max 1 (2 * m_capacity s) else m_capacity s)"
    "m_size s \<noteq> m_capacity s \<Longrightarrow> s' = s"
proof (cases "m_size s = m_capacity s")
  case True
  let ?n = "if m_capacity s = 0 then 1 else 2 * m_capacity s"
  have le: "m_size s \<le> ?n" using True by simp
  obtain s' where s': "IncreaseCapacity T ?n s = Inr s'" "vec_inv s'" "m_size s' = m_size s"
    "m_capacity s' = ?n" "contents s' = contents s"
    using IncreaseCapacity_spec[OF assms le] by blast
  have "IsSizeEqualsCapacity T s = Inr s'"
    using True s'(1) by (simp add: IsSizeEqualsCapacity_def)
  moreover have "m_size s' < m_capacity s'"
    using s'(3,4) True by simp
  moreover have "m_capacity s' = max 1 (2 * m_capacity s)"
    using s'(4) by simp
  ultimately show thesis
    using that[of s'] s' True by simp
next
  case False
  then have "IsSizeEqualsCapacity T s = Inr s"
    by (simp add: IsSizeEqualsCapacity_def)
  moreover have "m_size s < m_capacity s"
    using assms False by (simp add: vec_inv_def)
  ultimately show thesis
    using that[of s] assms False by simp
qed

lemma PushBack_spec:
  assumes "vec_inv s"
  obtains s' where "PushBack T x s = Inr s'" "vec_inv s'" "m_size s' = Suc (m_size s)"
    "contents s' = contents s @ [x]"
    "m_capacity s' = (if m_size s = m_capacity s then max 1 (2 * m_capacity s) else m_capacity s)"
    "drop (Suc (m_size s)) (m_items s') =
       drop (Suc (m_size s)) (m_items (projr (IsSizeEqualsCapacity T s)))"
proof -
  obtain s1 where s1: "IsSizeEqualsCapacity T s = Inr s1" "vec_inv s1" "m_size s1 = m_size s"
    "m_size s1 < m_capacity s1" "contents s1 = contents s"
    "m_capacity s1 = (if m_size s = m_capacity s then max 1 (2 * m_capacity s) else m_capacity s)"
    using IsSizeEqualsCapacity_spec[OF assms] by blast
  let ?s' = "s1\<lparr>m_items := (m_items s1)[m_size s1 := x], m_size := m_size s1 + 1\<rparr>"
  have lt: "m_size s1 < length (m_items s1)"
    using s1(2,4) by (simp add: vec_inv_def)
  have "PushBack T x s = Inr ?s'"
    using s1(1) lt by (simp add: PushBack_def)
  moreover have "vec_inv ?s'"
    using s1(2,4) by (simp add: vec_inv_def)
  moreover have "contents ?s' = contents s @ [x]"
    using lt s1(5) by (simp add: contents_def take_Suc_conv_app_nth)
  ultimately show thesis
    using that[of ?s'] s1 by simp
qed

lemma Insert_spec:
  assumes "vec_inv s" "pos \<le> m_size s"
  obtains s' where "Insert T pos v s = Inr (pos, s')" "vec_inv s'" "m_size s' = Suc (m_size s)"
    "contents s' = take pos (contents s) @ v # drop pos (contents s)"
    "m_capacity s' = (if m_size s = m_capacity s then max 1 (2 * m_capacity s) else m_capacity s)"
    "drop (Suc (m_size s)) (m_items s') =
       drop (Suc (m_size s)) (m_items (projr (IsSizeEqualsCapacity T s)))"
proof -
  obtain s1 where s1: "IsSizeEqualsCapacity T s = Inr s1" "vec_inv s1" "m_size s1 = m_size s"
    "m_size s1 < m_capacity s1" "contents s1 = contents s"
    "m_capacity s1 = (if m_size s = m_capacity s then max 1 (2 * m_capacity s) else m_capacity s)"
    using IsSizeEqualsCapacity_spec[OF assms(1)] by blast
  let ?n = "m_size s1"
  let ?raw = "m_items s1"
  let ?mb = "std_move_backward T pos ?n (?n + 1) ?raw"
  let ?s' = "s1\<lparr>m_items := ?mb[pos := v], m_size := ?n + 1\<rparr>"
  have lt: "?n < length ?raw"
    using s1(2,4) by (simp add: vec_inv_def)
  have pos: "pos \<le> ?n"
    using assms(2) s1(3) by simp
  have mb: "length ?mb = length ?raw"
    "\<And>j. j < length ?raw \<Longrightarrow> ?mb ! j =
            (if pos < j \<and> j \<le> ?n then ?raw ! (j - 1)
             else if j = pos \<and> pos < ?n then moved T (?raw ! pos)
             else ?raw ! j)"
    using move_backward_nth[OF pos lt, of T] by simp_all
  have "Insert T pos v s = Inr (pos, ?s')"
    using s1(1) lt pos by (simp add: Insert_def Let_def)
  moreover have "vec_inv ?s'"
    using s1(2,4) mb(1) by (simp add: vec_inv_def)
  moreover have ins: "?mb[pos := v] ! j =
            (if j < pos then ?raw ! j else if j = pos then v
             else if j \<le> ?n then ?raw ! (j - 1) else ?raw ! j)"
    if "j < length ?raw" for j
    using that mb pos by (auto simp: nth_list_update)
  moreover have "contents ?s' = take pos (contents s1) @ v # drop pos (contents s1)"
    unfolding contents_def
  proof (rule nth_equalityI)
    show "length (take (m_size ?s') (m_items ?s')) =
          length (take pos (take ?n ?raw) @ v # drop pos (take ?n ?raw))"
      using lt pos mb(1) by simp
  next
    fix i assume "i < length (take (m_size ?s') (m_items ?s'))"
    then have i: "i \<le> ?n" using lt mb(1) by simp
    then have "i < length ?raw" using lt by simp
    from ins[OF this] i pos lt
    show "take (m_size ?s') (m_items ?s') ! i =
          (take pos (take ?n ?raw) @ v # drop pos (take ?n ?raw)) ! i"
      by (auto simp: nth_append nth_Cons' min_def)
  qed
  moreover have "drop (Suc ?n) (m_items ?s') = drop (Suc ?n) ?raw"
  proof (rule nth_equalityI)
    show "length (drop (Suc ?n) (m_items ?s')) = length (drop (Suc ?n) ?raw)"
      using mb(1) by simp
  next
    fix i assume "i < length (drop (Suc ?n) (m_items ?s'))"
    then have i: "Suc ?n + i < length ?raw" using mb(1) by simp
    from ins[OF this] pos mb(1) i
    show "drop (Suc ?n) (m_items ?s') ! i = drop (Suc ?n) ?raw ! i"
      by simp
  qed
  ultimately show thesis
    using that[of ?s'] s1 by simp
qed

lemma Erase_spec:
  assumes "vec_inv s" "pos < m_size s"
  obtains s' where "Erase T pos s = Inr (pos, s')" "vec_inv s'" "m_size s' = m_size s - 1"
    "m_capacity s' = m_capacity s"
    "contents s' = take pos (contents s) @ drop (Suc pos) (contents s)"
    "drop (m_size s) (m_items s') = drop (m_size s) (m_items s)"
    "m_items s' ! (m_size s - 1) =
       (if Suc pos < m_size s then moved T (m_items s ! (m_size s - 1))
        else m_items s ! (m_size s - 1))"
proof -
  let ?n = "m_size s"
  let ?raw = "m_items s"
  let ?mv = "std_move T (pos + 1) ?n pos ?raw"
  let ?s' = "s\<lparr>m_items := ?mv, m_size := ?n - 1\<rparr>"
  have le: "?n \<le> length ?raw"
    using assms(1) by (simp add: vec_inv_def)
  have mv: "length ?mv = length ?raw"
    "\<And>j. j < length ?raw \<Longrightarrow> ?mv ! j =
            (if pos \<le> j \<and> Suc j < ?n then ?raw ! Suc j
             else if Suc j = ?n \<and> Suc pos < ?n then moved T (?raw ! j)
             else ?raw ! j)"
    using std_move_nth[OF assms(2) le, of T] by simp_all
  have "Erase T pos s = Inr (pos, ?s')"
    using assms(2) le by (simp add: Erase_def)
  moreover have "vec_inv ?s'"
    using assms(1) mv(1) by (auto simp: vec_inv_def)
  moreover have "contents ?s' = take pos (contents s) @ drop (Suc pos) (contents s)"
    unfolding contents_def
  proof (rule nth_equalityI)
    show "length (take (m_size ?s') (m_items ?s')) =
          length (take pos (take ?n ?raw) @ drop (Suc pos) (take ?n ?raw))"
      using le assms(2) mv(1) by simp
  next
    fix i assume "i < length (take (m_size ?s') (m_items ?s'))"
    then have i: "Suc i < ?n" using le mv(1) assms(2) by auto
    then have "i < length ?raw" using le by simp
    from mv(2)[OF this] i le assms(2) mv(1)
    show "take (m_size ?s') (m_items ?s') ! i =
          (take pos (take ?n ?raw) @ drop (Suc pos) (take ?n ?raw)) ! i"
      by (auto simp: nth_append min_def)
  qed
  moreover have "drop ?n (m_items ?s') = drop ?n ?raw"
  proof (rule nth_equalityI)
    show "length (drop ?n (m_items ?s')) = length (drop ?n ?raw)"
      using mv(1) by simp
  next
    fix i assume "i < length (drop ?n (m_items ?s'))"
    then have i: "?n + i < length ?raw" using mv(1) by simp
    from mv(2)[OF this] mv(1) i le
    show "drop ?n (m_items ?s') ! i = drop ?n ?raw ! i"
      by simp
  qed
  moreover have "m_items ?s' ! (?n - 1) =
       (if Suc pos < ?n then moved T (?raw ! (?n - 1)) else ?raw ! (?n - 1))"
    using le assms(2) mv(2)[of "?n - 1"] by auto
  ultimately show thesis
    using that[of ?s'] by simp
qed

section \<open>Checked access\<close>

text \<open>
  C4: on a well-formed vector, \<open>At(i)\<close> throws \<open>out_of_range\<close> exactly when
  \<open>i \<ge> size\<close>; otherwise it returns the element at logical index \<open>i\<close>. The vector is
  the same afterwards in both cases. So \<open>At(size)\<close> and \<open>At(size + 1)\<close> throw, and
  \<open>At(size - 1)\<close> returns the last element when \<open>size > 0\<close>.
\<close>

theorem At_bounds_checked:
  assumes "vec_inv s"
  shows "(fst (At i s) = Inl out_of_range \<longleftrightarrow> i \<ge> m_size s)
       \<and> (i < m_size s \<longrightarrow> fst (At i s) = Inr (contents s ! i))
       \<and> snd (At i s) = s
       \<and> fst (At (m_size s) s) = Inl out_of_range
       \<and> fst (At (m_size s + 1) s) = Inl out_of_range
       \<and> (m_size s > 0 \<longrightarrow> fst (At (m_size s - 1) s) = Inr (contents s ! (m_size s - 1)))"
  using assms by (auto simp: At_def vec_inv_def contents_def)

theorem At_bounds_checked_witness:
  "vec_inv \<lparr>m_items = [10, 20, 30, 0::int], m_size = 3, m_capacity = 4\<rparr>
   \<and> fst (At 1 \<lparr>m_items = [10, 20, 30, 0::int], m_size = 3, m_capacity = 4\<rparr>) = Inr 20
   \<and> fst (At 2 \<lparr>m_items = [10, 20, 30, 0::int], m_size = 3, m_capacity = 4\<rparr>) = Inr 30
   \<and> fst (At 3 \<lparr>m_items = [10, 20, 30, 0::int], m_size = 3, m_capacity = 4\<rparr>) = Inl out_of_range
   \<and> fst (At 4 \<lparr>m_items = [10, 20, 30, 0::int], m_size = 3, m_capacity = 4\<rparr>) = Inl out_of_range"
proof -
  let ?s = "\<lparr>m_items = [10, 20, 30, 0::int], m_size = 3, m_capacity = 4\<rparr>"
  have inv: "vec_inv ?s" by (simp add: vec_inv_def)
  show ?thesis
    using inv At_bounds_checked[OF inv, of 1] At_bounds_checked[OF inv, of 2]
    by (simp add: contents_def)
qed

section \<open>Comparison\<close>

lemma equal_loop_eq: "length xs = length ys \<Longrightarrow> equal_loop xs ys \<longleftrightarrow> xs = ys"
  by (induction xs ys rule: list_induct2) simp_all

lemma std_equal_eq: "std_equal xs ys \<longleftrightarrow> xs = ys"
  by (auto simp: std_equal_def equal_loop_eq)

lemma std_lexicographical_compare_less:
  "std_lexicographical_compare xs ys \<longleftrightarrow> xs < (ys :: 'a::linorder list)"
  by (induction xs ys rule: std_lexicographical_compare.induct) auto

text \<open>
  C7: \<open>==\<close> holds exactly when both vectors have the same length and agree at every
  index; \<open><\<close>, \<open><=\<close>, \<open>>\<close> and \<open>>=\<close> are the lexicographic order of the element
  lists. In particular \<open>[1,2,3] < [1,2,4]\<close> and \<open>[1,2] < [1,2,3]\<close>.
\<close>

theorem comparison_operators:
  fixes a b :: "'a::linorder SimpleVector"
  shows "(op_eq a b \<longleftrightarrow>
            length (contents a) = length (contents b) \<and>
            (\<forall>i < length (contents a). contents a ! i = contents b ! i))
       \<and> (op_ne a b \<longleftrightarrow> \<not> op_eq a b)
       \<and> (op_lt a b \<longleftrightarrow> contents a < contents b)
       \<and> (op_le a b \<longleftrightarrow> contents a \<le> contents b)
       \<and> (op_gt a b \<longleftrightarrow> contents a > contents b)
       \<and> (op_ge a b \<longleftrightarrow> contents a \<ge> contents b)
       \<and> op_lt (SimpleVector_init int_type [1, 2, 3]) (SimpleVector_init int_type [1, 2, 4])
       \<and> op_lt (SimpleVector_init int_type [1, 2]) (SimpleVector_init int_type [1, 2, 3])"
proof -
  have init: "contents (SimpleVector_init T xs) = xs" for T :: "'b elem_type" and xs
    by (simp add: SimpleVector_init_def CopyAndSwap_def swap_vec_def ArrayPtr_swap_def
        SimpleVector_size_def ArrayPtr_size_eq std_copy_eq contents_def Let_def)
  show ?thesis
    by (auto simp: op_eq_def op_ne_def op_lt_def op_le_def op_gt_def op_ge_def std_equal_eq
        std_lexicographical_compare_less list_eq_iff_nth_eq init)
qed

theorem comparison_operators_witness:
  "op_eq (SimpleVector_init int_type [1, 2]) (SimpleVector_init int_type [1, 2])
   \<and> \<not> op_eq (SimpleVector_init int_type [1, 2]) (SimpleVector_init int_type [1, 2, 3])
   \<and> op_le (SimpleVector_init int_type [1, 2]) (SimpleVector_init int_type [1, 2, 3])"
proof -
  have init: "contents (SimpleVector_init int_type xs) = xs" for xs
    by (simp add: SimpleVector_init_def CopyAndSwap_def swap_vec_def ArrayPtr_swap_def
        SimpleVector_size_def ArrayPtr_size_eq std_copy_eq contents_def Let_def)
  show ?thesis
    using comparison_operators[of "SimpleVector_init int_type [1, 2]" "SimpleVector_init int_type [1, 2]"]
      comparison_operators[of "SimpleVector_init int_type [1, 2]" "SimpleVector_init int_type [1, 2, 3]"]
    by (simp add: init)
qed

section \<open>Moving and copying\<close>

lemma SimpleVector_copy_eq:
  assumes "vec_inv s"
  shows "SimpleVector_copy T s =
         Inr \<lparr>m_items = contents s, m_size = m_size s, m_capacity = m_size s\<rparr>"
proof -
  have le: "m_size s \<le> length (m_items s)"
    using assms by (simp add: vec_inv_def)
  then have len: "length (contents s) = m_size s"
    by (simp add: contents_def)
  show ?thesis
    using le len
    by (simp add: SimpleVector_copy_def CopyAndSwap_def swap_vec_def ArrayPtr_swap_def
        SimpleVector_size_def ArrayPtr_size_eq std_copy_eq Let_def)
qed

text \<open>
  C6: the move constructor gives the new vector the block, size and capacity of its
  source and leaves the source with no block, size 0 and capacity 0. Move assignment
  from another object does the same to \<open>*this\<close> and its right-hand side.
\<close>

theorem move_empties_source:
  "fst (SimpleVector_move a) = a
   \<and> m_items (snd (SimpleVector_move a)) = []
   \<and> m_size (snd (SimpleVector_move a)) = 0
   \<and> m_capacity (snd (SimpleVector_move a)) = 0
   \<and> IsEmpty (snd (SimpleVector_move a))
   \<and> (this \<noteq> other \<longrightarrow>
        assign_move this other st this = st other
      \<and> m_items (assign_move this other st other) = []
      \<and> m_size (assign_move this other st other) = 0
      \<and> m_capacity (assign_move this other st other) = 0
      \<and> IsEmpty (assign_move this other st other))"
  by (simp add: SimpleVector_move_def ArrayPtr_move_def assign_move_def Clear_def swap_vec_def
      ArrayPtr_swap_def IsEmpty_def Let_def)

theorem move_empties_source_witness:
  "(0::nat) \<noteq> 1
   \<and> assign_move 0 1
        ((\<lambda>_. SimpleVector_default)(1 := \<lparr>m_items = [1, 2, 0::int], m_size = 2, m_capacity = 3\<rparr>)) 0
       = \<lparr>m_items = [1, 2, 0::int], m_size = 2, m_capacity = 3\<rparr>
   \<and> m_capacity (assign_move 0 1
        ((\<lambda>_. SimpleVector_default)(1 := \<lparr>m_items = [1, 2, 0::int], m_size = 2, m_capacity = 3\<rparr>)) 1)
       = 0"
  using move_empties_source[of "\<lparr>m_items = [1, 2, 0::int], m_size = 2, m_capacity = 3\<rparr>" 0 1
      "(\<lambda>_. SimpleVector_default)(1 := \<lparr>m_items = [1, 2, 0::int], m_size = 2, m_capacity = 3\<rparr>)"]
  by simp

text \<open>
  C9: for an element type whose move leaves the source default-valued, the
  \<open>Type&&\<close> constructor of \<open>ArrayPtr\<close> with \<open>N \<ge> 1\<close> puts the value in slot 0 and
  the default value in the other \<open>N - 1\<close> slots.
\<close>

theorem ArrayPtr_rvalue_one_real_value:
  assumes "1 \<le> N" "\<forall>x. moved T x = dflt T"
  shows "fst (ArrayPtr_rvalue T N v) = v # replicate (N - 1) (dflt T)"
proof -
  have pow: "(moved T ^^ Suc i) v = dflt T" for i
    using assms(2) by simp
  obtain k where N: "N = Suc k"
    using assms(1) by (cases N) simp_all
  have "map (\<lambda>i. (moved T ^^ i) v) [0..<Suc k] = v # map (\<lambda>i. (moved T ^^ Suc i) v) [0..<k]"
    by (simp add: upt_conv_Cons map_Suc_upt [symmetric] del: upt_Suc funpow.simps)
  also have "\<dots> = v # replicate k (dflt T)"
    using pow by (simp add: map_replicate_const del: funpow.simps)
  finally show ?thesis
    by (simp add: ArrayPtr_rvalue_eq N)
qed

theorem ArrayPtr_rvalue_one_real_value_witness:
  "(1::nat) \<le> 3 \<and> (\<forall>x. moved string_type x = dflt string_type)
   \<and> fst (ArrayPtr_rvalue string_type 3 ''ab'') = [''ab'', [], []]"
proof -
  have h1: "(1::nat) \<le> 3" by simp
  have h2: "\<forall>x. moved string_type x = dflt string_type" by (simp add: string_type_def)
  show ?thesis
    using h1 h2 ArrayPtr_rvalue_one_real_value[OF h1 h2, of "''ab''"]
    by (simp add: string_type_def numeral_3_eq_3)
qed

text \<open>
  C10: the copy constructor and copy assignment from another object give a vector
  with the size and the elements of the source, equal to it under \<open>==\<close>, and
  leave the source as it was. The capacity of the copy is the size of the source,
  whatever the capacity of the source.
\<close>

theorem copy_capacity_is_source_size:
  assumes "vec_inv (st rhs)"
  shows "(\<exists>c. SimpleVector_copy T (st rhs) = Inr c
            \<and> m_size c = m_size (st rhs) \<and> contents c = contents (st rhs)
            \<and> op_eq c (st rhs) \<and> m_capacity c = m_size (st rhs))
       \<and> (this \<noteq> rhs \<longrightarrow>
            (\<exists>st'. assign_copy T this rhs st = Inr st'
               \<and> st' rhs = st rhs
               \<and> m_size (st' this) = m_size (st rhs)
               \<and> contents (st' this) = contents (st rhs)
               \<and> op_eq (st' this) (st rhs)
               \<and> m_capacity (st' this) = m_size (st rhs)))"
proof -
  let ?c = "\<lparr>m_items = contents (st rhs), m_size = m_size (st rhs), m_capacity = m_size (st rhs)\<rparr>"
  have copy: "SimpleVector_copy T (st rhs) = Inr ?c"
    using assms by (rule SimpleVector_copy_eq)
  have cont: "contents ?c = contents (st rhs)"
    by (simp add: contents_def)
  have eq: "op_eq ?c (st rhs)"
    by (simp add: op_eq_def std_equal_eq cont)
  have swap: "fst (swap_vec x ?c) = ?c" for x
    by (simp add: swap_vec_def ArrayPtr_swap_def)
  show ?thesis
    using copy cont eq
    by (simp add: assign_copy_def swap)
qed

theorem copy_capacity_is_source_size_witness:
  "vec_inv \<lparr>m_items = [1, 2, 0::int], m_size = 2, m_capacity = 3\<rparr>
   \<and> (1::nat) \<noteq> 0
   \<and> (\<exists>st'. assign_copy int_type 1 0
                (\<lambda>_. \<lparr>m_items = [1, 2, 0::int], m_size = 2, m_capacity = 3\<rparr>) = Inr st'
            \<and> contents (st' 1) = [1, 2]
            \<and> m_capacity (st' 1) = 2
            \<and> st' 0 = \<lparr>m_items = [1, 2, 0::int], m_size = 2, m_capacity = 3\<rparr>)"
proof -
  let ?s = "\<lparr>m_items = [1, 2, 0::int], m_size = 2, m_capacity = 3\<rparr>"
  have inv: "vec_inv ?s" by (simp add: vec_inv_def)
  show ?thesis
    using inv copy_capacity_is_source_size[where st = "\<lambda>_. ?s" and rhs = 0 and this = 1
        and T = int_type]
    by (auto simp: contents_def)
qed

section \<open>Insertion and erasure\<close>

lemma Insert_rvalue_Insert:
  "Insert_rvalue T pos v s =
     (case Insert T pos v s of Inl e \<Rightarrow> Inl e | Inr (it, s') \<Rightarrow> Inr (it, s', moved T v))"
  by (simp add: Insert_rvalue_def Insert_def Let_def split: sum.splits)

lemma PushBack_rvalue_PushBack:
  "PushBack_rvalue T x s =
     (case PushBack T x s of Inl e \<Rightarrow> Inl e | Inr s' \<Rightarrow> Inr (s', moved T x))"
  by (simp add: PushBack_rvalue_def PushBack_def split: sum.splits)

text \<open>
  C5: on a well-formed vector and for a position in \<open>[begin(), end()]\<close>, \<open>Insert\<close>
  followed by \<open>Erase\<close> of the iterator it returned gives back the elements and
  the size the vector had. Both overloads of \<open>Insert\<close> behave so.
\<close>

theorem insert_erase_roundtrip:
  assumes "vec_inv s" "pos \<le> m_size s"
  shows "\<exists>it s1 s2 it2.
           Insert T pos v s = Inr (it, s1)
         \<and> Insert_rvalue T pos v s = Inr (it, s1, moved T v)
         \<and> Erase T it s1 = Inr (it2, s2)
         \<and> contents s2 = contents s
         \<and> m_size s2 = m_size s"
proof -
  obtain s1 where s1: "Insert T pos v s = Inr (pos, s1)" "vec_inv s1"
    "m_size s1 = Suc (m_size s)"
    "contents s1 = take pos (contents s) @ v # drop pos (contents s)"
    using Insert_spec[OF assms, of T v] by blast
  have pos1: "pos < m_size s1"
    using assms(2) s1(3) by simp
  obtain s2 where s2: "Erase T pos s1 = Inr (pos, s2)" "m_size s2 = m_size s1 - 1"
    "contents s2 = take pos (contents s1) @ drop (Suc pos) (contents s1)"
    using Erase_spec[OF s1(2) pos1, of T] by blast
  have len: "pos \<le> length (contents s)"
    using assms by (simp add: contents_def vec_inv_def)
  have "contents s2 = contents s"
    using len by (simp add: s2(3) s1(4))
  moreover have "m_size s2 = m_size s"
    using s2(2) s1(3) by simp
  moreover have "Insert_rvalue T pos v s = Inr (pos, s1, moved T v)"
    using s1(1) by (simp add: Insert_rvalue_Insert)
  ultimately show ?thesis
    using s1(1) s2(1) by blast
qed

theorem insert_erase_roundtrip_witness:
  "vec_inv \<lparr>m_items = [10, 20::int], m_size = 2, m_capacity = 2\<rparr>
   \<and> (1::nat) \<le> m_size \<lparr>m_items = [10, 20::int], m_size = 2, m_capacity = 2\<rparr>
   \<and> Insert int_type 1 15 \<lparr>m_items = [10, 20], m_size = 2, m_capacity = 2\<rparr>
       = Inr (1, \<lparr>m_items = [10, 15, 20, 0], m_size = 3, m_capacity = 4\<rparr>)
   \<and> Erase int_type 1 \<lparr>m_items = [10, 15, 20, 0], m_size = 3, m_capacity = 4\<rparr>
       = Inr (1, \<lparr>m_items = [10, 20, 20, 0], m_size = 2, m_capacity = 4\<rparr>)
   \<and> contents \<lparr>m_items = [10, 20, 20, 0::int], m_size = 2, m_capacity = 4\<rparr>
       = contents \<lparr>m_items = [10, 20::int], m_size = 2, m_capacity = 2\<rparr>"
proof -
  let ?s = "\<lparr>m_items = [10, 20::int], m_size = 2, m_capacity = 2\<rparr>"
  have inv: "vec_inv ?s" by (simp add: vec_inv_def)
  have pos: "(1::nat) \<le> m_size ?s" by simp
  have ins: "Insert int_type 1 15 ?s
       = Inr (1, \<lparr>m_items = [10, 15, 20, 0], m_size = 3, m_capacity = 4\<rparr>)"
    by code_simp
  have ers: "Erase int_type 1 \<lparr>m_items = [10, 15, 20, 0], m_size = 3, m_capacity = 4\<rparr>
       = Inr (1, \<lparr>m_items = [10, 20, 20, 0], m_size = 2, m_capacity = 4\<rparr>)"
    by code_simp
  obtain it s1 s2 it2 where r: "Insert int_type 1 15 ?s = Inr (it, s1)"
    "Erase int_type it s1 = Inr (it2, s2)" "contents s2 = contents ?s"
    using insert_erase_roundtrip[OF inv pos, of int_type 15] by blast
  from r(1) ins have "it = 1" "s1 = \<lparr>m_items = [10, 15, 20, 0], m_size = 3, m_capacity = 4\<rparr>"
    by simp_all
  with r(2) ers have "s2 = \<lparr>m_items = [10, 20, 20, 0], m_size = 2, m_capacity = 4\<rparr>"
    by simp
  with r(3) show ?thesis
    using inv ins ers by simp
qed

section \<open>Growth\<close>





section \<open>Resizing\<close>

lemma Resize_spec:
  assumes "vec_inv s"
  obtains s' where "Resize T n s = Inr s'" "vec_inv s'" "m_size s' = n"
    "m_capacity s' = (if m_capacity s < n then max n (2 * m_capacity s) else m_capacity s)"
    "n \<le> m_size s \<Longrightarrow> m_items s' = m_items s"
    "m_size s < n \<Longrightarrow> n \<le> m_capacity s \<Longrightarrow>
       m_items s' = take (m_size s) (m_items s) @ replicate (n - m_size s) (dflt T)
                    @ drop n (m_items s)"
    "m_capacity s < n \<Longrightarrow>
       m_items s' = take (m_size s) (m_items s) @
                    map (\<lambda>i. (moved T ^^ i) (dflt T)) [m_size s..<max n (2 * m_capacity s)]"
proof -
  have le: "m_size s \<le> m_capacity s" and len: "length (m_items s) = m_capacity s"
    using assms by (simp_all add: vec_inv_def)
  consider (grow) "m_capacity s < n" | (expose) "m_size s < n" "n \<le> m_capacity s"
    | (shrink) "n \<le> m_size s"
    by linarith
  then show thesis
  proof cases
    case grow
    let ?c = "max n (m_capacity s * 2)"
    let ?s1 = "s\<lparr>m_items := take (m_size s) (m_items s) @
                            drop (m_size s) (map (\<lambda>i. (moved T ^^ i) (dflt T)) [0..<?c]),
                m_capacity := ?c\<rparr>"
    have inc: "IncreaseCapacity T ?c s = Inr ?s1"
      using le len grow by (intro IncreaseCapacity_eq) simp_all
    have "Resize T n s = Inr (?s1\<lparr>m_size := n\<rparr>)"
      using grow inc by (simp add: Resize_def)
    moreover have "vec_inv (?s1\<lparr>m_size := n\<rparr>)"
      using le len grow by (simp add: vec_inv_def)
    moreover have "m_items (?s1\<lparr>m_size := n\<rparr>) = take (m_size s) (m_items s) @
                    map (\<lambda>i. (moved T ^^ i) (dflt T)) [m_size s..<max n (2 * m_capacity s)]"
      using le grow by (simp add: drop_map mult.commute)
    ultimately show thesis
      using that[of "?s1\<lparr>m_size := n\<rparr>"] grow le by (simp add: mult.commute)
  next
    case expose
    let ?s' = "s\<lparr>m_items := take (m_size s) (m_items s) @ replicate (n - m_size s) (dflt T)
                    @ drop n (m_items s), m_size := n\<rparr>"
    have "Resize T n s = Inr ?s'"
      using expose len by (simp add: Resize_def fold_update_const)
    moreover have "vec_inv ?s'"
      using expose len le by (simp add: vec_inv_def)
    ultimately show thesis
      using that[of ?s'] expose by simp
  next
    case shrink
    have "Resize T n s = Inr (s\<lparr>m_size := n\<rparr>)"
      using shrink le by (simp add: Resize_def)
    moreover have "vec_inv (s\<lparr>m_size := n\<rparr>)"
      using shrink le len by (simp add: vec_inv_def)
    ultimately show thesis
      using that[of "s\<lparr>m_size := n\<rparr>"] shrink le by simp
  qed
qed

text \<open>
  The three branches of \<open>Resize(n)\<close> on a well-formed vector with size \<open>s\<close> and
  capacity \<open>c\<close>. It returns with size \<open>n\<close> and never with a smaller capacity. If
  \<open>n > c\<close> the capacity becomes \<open>max(n, 2 * c)\<close>, the old elements stay, and slot \<open>i\<close>
  in \<open>[s, n)\<close> holds what \<open>i\<close> moves leave of the one temporary \<open>Type()\<close> the new block is
  filled from. If \<open>s < n \<le> c\<close> the slots \<open>[s, n)\<close> are set to the default value and the
  old elements and the capacity stay. If \<open>n \<le> s\<close> the block and the capacity stay,
  so the elements \<open>[0, n)\<close> are unchanged.
\<close>

lemma Resize_three_cases:
  assumes "vec_inv s"
  shows "\<exists>s'. Resize T n s = Inr s'
           \<and> m_size s' = n
           \<and> m_capacity s \<le> m_capacity s'
           \<and> (m_capacity s < n \<longrightarrow>
                 m_capacity s' = max n (2 * m_capacity s)
               \<and> take (m_size s) (m_items s') = contents s
               \<and> (\<forall>i. m_size s \<le> i \<and> i < n \<longrightarrow> m_items s' ! i = (moved T ^^ i) (dflt T))
               \<and> (moved T (dflt T) = dflt T \<longrightarrow>
                    (\<forall>i. m_size s \<le> i \<and> i < n \<longrightarrow> m_items s' ! i = dflt T)))
           \<and> (m_size s < n \<and> n \<le> m_capacity s \<longrightarrow>
                 m_capacity s' = m_capacity s
               \<and> take (m_size s) (m_items s') = contents s
               \<and> (\<forall>i. m_size s \<le> i \<and> i < n \<longrightarrow> m_items s' ! i = dflt T))
           \<and> (n \<le> m_size s \<longrightarrow>
                 m_capacity s' = m_capacity s
               \<and> m_items s' = m_items s
               \<and> contents s' = take n (contents s))"
proof -
  have le: "m_size s \<le> m_capacity s" and len: "length (m_items s) = m_capacity s"
    using assms by (simp_all add: vec_inv_def)
  obtain s' where s': "Resize T n s = Inr s'" "m_size s' = n"
    "m_capacity s' = (if m_capacity s < n then max n (2 * m_capacity s) else m_capacity s)"
    "n \<le> m_size s \<Longrightarrow> m_items s' = m_items s"
    "m_size s < n \<Longrightarrow> n \<le> m_capacity s \<Longrightarrow>
       m_items s' = take (m_size s) (m_items s) @ replicate (n - m_size s) (dflt T)
                    @ drop n (m_items s)"
    "m_capacity s < n \<Longrightarrow>
       m_items s' = take (m_size s) (m_items s) @
                    map (\<lambda>i. (moved T ^^ i) (dflt T)) [m_size s..<max n (2 * m_capacity s)]"
    using Resize_spec[OF assms, of T n] by blast
  have cap: "m_capacity s \<le> m_capacity s'"
    using s'(3) by (auto simp: max_def)
  have grow: "m_capacity s' = max n (2 * m_capacity s)
               \<and> take (m_size s) (m_items s') = contents s
               \<and> (\<forall>i. m_size s \<le> i \<and> i < n \<longrightarrow> m_items s' ! i = (moved T ^^ i) (dflt T))
               \<and> (moved T (dflt T) = dflt T \<longrightarrow>
                    (\<forall>i. m_size s \<le> i \<and> i < n \<longrightarrow> m_items s' ! i = dflt T))"
    if "m_capacity s < n"
  proof -
    have items: "m_items s' = take (m_size s) (m_items s) @
                    map (\<lambda>i. (moved T ^^ i) (dflt T)) [m_size s..<max n (2 * m_capacity s)]"
      using s'(6) that by simp
    have gen: "m_items s' ! i = (moved T ^^ i) (dflt T)"
      if "m_size s \<le> i" "i < n" for i
    proof -
      have "i - m_size s < max n (2 * m_capacity s) - m_size s"
        using that by (auto simp: max_def)
      then have "[m_size s..<max n (2 * m_capacity s)] ! (i - m_size s) = i"
        using that(1) by (simp del: upt_Suc)
      then show ?thesis
        using that le len by (simp add: items nth_append)
    qed
    then have "m_items s' ! i = dflt T"
      if "moved T (dflt T) = dflt T" "m_size s \<le> i" "i < n" for i
      using that by (simp add: funpow_fixed)
    then show ?thesis
      using that s'(3) le len gen by (simp add: items contents_def)
  qed
  have expose: "m_capacity s' = m_capacity s
               \<and> take (m_size s) (m_items s') = contents s
               \<and> (\<forall>i. m_size s \<le> i \<and> i < n \<longrightarrow> m_items s' ! i = dflt T)"
    if "m_size s < n" "n \<le> m_capacity s"
  proof -
    have items: "m_items s' = take (m_size s) (m_items s) @ replicate (n - m_size s) (dflt T)
                    @ drop n (m_items s)"
      using s'(5) that by simp
    have "m_items s' ! i = dflt T" if "m_size s \<le> i" "i < n" for i
      using that le len by (auto simp: items nth_append)
    then show ?thesis
      using that s'(3) le len by (simp add: items contents_def)
  qed
  have shrink: "m_capacity s' = m_capacity s \<and> m_items s' = m_items s
               \<and> contents s' = take n (contents s)"
    if "n \<le> m_size s"
    using that s'(2,3,4) le by (simp add: contents_def min_def)
  show ?thesis
    using s'(1,2) cap grow expose shrink by blast
qed

lemma Resize_three_cases_int:
  "vec_inv \<lparr>m_items = [15, 20, 7::int], m_size = 2, m_capacity = 3\<rparr>
   \<and> moved int_type (dflt int_type) = dflt int_type
   \<and> Resize int_type 5 \<lparr>m_items = [15, 20, 7], m_size = 2, m_capacity = 3\<rparr>
       = Inr \<lparr>m_items = [15, 20, 0, 0, 0, 0], m_size = 5, m_capacity = 6\<rparr>
   \<and> Resize int_type 3 \<lparr>m_items = [15, 20, 7], m_size = 2, m_capacity = 3\<rparr>
       = Inr \<lparr>m_items = [15, 20, 0], m_size = 3, m_capacity = 3\<rparr>
   \<and> Resize int_type 1 \<lparr>m_items = [15, 20, 7], m_size = 2, m_capacity = 3\<rparr>
       = Inr \<lparr>m_items = [15, 20, 7], m_size = 1, m_capacity = 3\<rparr>"
proof -
  let ?s = "\<lparr>m_items = [15, 20, 7::int], m_size = 2, m_capacity = 3\<rparr>"
  have inv: "vec_inv ?s" by (simp add: vec_inv_def)
  have ty: "moved int_type (dflt int_type) = dflt int_type" by (simp add: int_type_def)
  have e1: "Resize int_type 5 ?s = Inr \<lparr>m_items = [15, 20, 0, 0, 0, 0], m_size = 5, m_capacity = 6\<rparr>"
    by code_simp
  have e2: "Resize int_type 3 ?s = Inr \<lparr>m_items = [15, 20, 0], m_size = 3, m_capacity = 3\<rparr>"
    by code_simp
  have e3: "Resize int_type 1 ?s = Inr \<lparr>m_items = [15, 20, 7], m_size = 1, m_capacity = 3\<rparr>"
    by code_simp
  obtain s' where "Resize int_type 5 ?s = Inr s'" "m_size s' = 5"
    "m_capacity s' = max 5 (2 * m_capacity ?s)"
    using Resize_three_cases[OF inv, of int_type 5] by auto
  then show ?thesis
    using inv ty e1 e2 e3 by simp
qed

text \<open>
  C3: when \<open>Resize(n)\<close> has to grow the block (\<open>n > c\<close>) the slots \<open>[s, n)\<close> are meant to
  hold default values, as they do in the branch for \<open>s < n \<le> c\<close>, which assigns a
  fresh \<open>Type()\<close> to each slot. The growing branch instead takes them from the block
  that \<open>IncreaseCapacity\<close> builds with \<open>ArrayPtr(size, Type&&)\<close> out of a single
  temporary, moved from once per slot. For the element type that counts its moves,
  \<open>Resize(3)\<close> on \<open>[7]\<close> with capacity 1 ends with \<open>[7, 1, 2]\<close>, capacity 3 and size 3:
  slots 1 and 2 are not default-valued. On the block \<open>[7, 9, 9]\<close> with size 1 and
  capacity 3 the same call ends with \<open>[7, 0, 0]\<close>.
\<close>

theorem Resize_growing_slots_not_default:
  "Resize counting_type 3 \<lparr>m_items = [7], m_size = 1, m_capacity = 1\<rparr>
     = Inr \<lparr>m_items = [7, 1, 2], m_size = 3, m_capacity = 3\<rparr>
   \<and> dflt counting_type = 0
   \<and> Resize counting_type 3 \<lparr>m_items = [7, 9, 9], m_size = 1, m_capacity = 3\<rparr>
     = Inr \<lparr>m_items = [7, 0, 0], m_size = 3, m_capacity = 3\<rparr>"
  by code_simp

section \<open>Size and capacity along every history\<close>

lemma SimpleVector_init_eq:
  "SimpleVector_init T xs = \<lparr>m_items = xs, m_size = length xs, m_capacity = length xs\<rparr>"
  by (simp add: SimpleVector_init_def CopyAndSwap_def swap_vec_def ArrayPtr_swap_def
      SimpleVector_size_def ArrayPtr_size_eq std_copy_eq Let_def)

lemma Reserve_spec:
  assumes "vec_inv s"
  obtains s' where "Reserve T c s = Inr s'" "vec_inv s'" "m_size s' = m_size s"
    "m_capacity s' = max c (m_capacity s)" "contents s' = contents s"
    "c \<le> m_capacity s \<Longrightarrow> s' = s"
    "m_capacity s < c \<Longrightarrow>
       drop (m_size s) (m_items s') = map (\<lambda>i. (moved T ^^ i) (dflt T)) [m_size s..<c]"
proof (cases "m_capacity s < c")
  case True
  then have le: "m_size s \<le> c"
    using assms by (simp add: vec_inv_def)
  obtain s' where s': "IncreaseCapacity T c s = Inr s'" "vec_inv s'" "m_size s' = m_size s"
    "m_capacity s' = c" "contents s' = contents s"
    "drop (m_size s) (m_items s') = map (\<lambda>i. (moved T ^^ i) (dflt T)) [m_size s..<c]"
    using IncreaseCapacity_spec[OF assms le, of T] by blast
  show thesis
    using that[of s'] s' True by (simp add: Reserve_def max_def)
next
  case False
  then show thesis
    using that[of s] assms by (simp add: Reserve_def max_def)
qed

lemma Insert_Inr_pos:
  assumes "vec_inv s" "Insert T pos x s = Inr r"
  shows "pos \<le> m_size s"
proof -
  obtain s1 where s1: "IsSizeEqualsCapacity T s = Inr s1" "m_size s1 = m_size s"
    using IsSizeEqualsCapacity_spec[OF assms(1), of T] by blast
  show ?thesis
    using assms(2) s1 by (simp add: Insert_def Let_def split: if_splits)
qed

lemma inv_default: "vec_inv SimpleVector_default \<and> m_size SimpleVector_default = 0"
  by (simp add: SimpleVector_default_def vec_inv_def)

lemma inv_size: "vec_inv (SimpleVector_size T n) \<and> m_size (SimpleVector_size T n) = n"
  by (simp add: SimpleVector_size_def ArrayPtr_size_eq vec_inv_def)

lemma inv_value: "vec_inv (SimpleVector_value T n v) \<and> m_size (SimpleVector_value T n v) = n"
  by (simp add: SimpleVector_value_def ArrayPtr_value_eq vec_inv_def)

lemma inv_init: "vec_inv (SimpleVector_init T xs) \<and> m_size (SimpleVector_init T xs) = length xs"
  by (simp add: SimpleVector_init_eq vec_inv_def)

lemma inv_reserve:
  assumes "SimpleVector_reserve T c = Inr s"
  shows "vec_inv s \<and> m_size s = 0"
proof -
  have d: "vec_inv (SimpleVector_default :: 'a SimpleVector)"
    "m_size (SimpleVector_default :: 'a SimpleVector) \<le> c"
    by (simp_all add: SimpleVector_default_def vec_inv_def)
  obtain s' where "IncreaseCapacity T c SimpleVector_default = Inr s'" "vec_inv s'"
    "m_size s' = m_size (SimpleVector_default :: 'a SimpleVector)"
    using IncreaseCapacity_spec[OF d, of T] by blast
  then show ?thesis
    using assms by (simp add: SimpleVector_reserve_def SimpleVector_default_def)
qed

lemma inv_copy:
  assumes "vec_inv other" "SimpleVector_copy T other = Inr s"
  shows "vec_inv s \<and> m_size s = m_size other"
proof -
  have "s = \<lparr>m_items = contents other, m_size = m_size other, m_capacity = m_size other\<rparr>"
    using SimpleVector_copy_eq[OF assms(1), of T] assms(2) by simp
  then show ?thesis
    using assms(1) by (simp add: vec_inv_def contents_def)
qed

lemma inv_move:
  "fst (SimpleVector_move other) = other"
  "snd (SimpleVector_move other) = SimpleVector_default"
  by (simp_all add: SimpleVector_move_def ArrayPtr_move_def SimpleVector_default_def)

lemma assign_copy_eq:
  assumes "vec_inv (st rhs)" "this \<noteq> rhs" "assign_copy T this rhs st = Inr st'"
  shows "st' this = \<lparr>m_items = contents (st rhs), m_size = m_size (st rhs),
                     m_capacity = m_size (st rhs)\<rparr>"
proof -
  let ?c = "\<lparr>m_items = contents (st rhs), m_size = m_size (st rhs),
             m_capacity = m_size (st rhs)\<rparr>"
  have "SimpleVector_copy T (st rhs) = Inr ?c"
    using assms(1) by (rule SimpleVector_copy_eq)
  then show ?thesis
    using assms(2,3) by (auto simp: assign_copy_def swap_vec_def ArrayPtr_swap_def)
qed

lemma inv_assign_copy:
  assumes "vec_inv (st rhs)" "this \<noteq> rhs" "assign_copy T this rhs st = Inr st'"
  shows "vec_inv (st' this) \<and> m_size (st' this) = m_size (st rhs)"
  using assign_copy_eq[OF assms] assms(1) by (simp add: vec_inv_def contents_def)

lemma inv_assign_move:
  assumes "this \<noteq> other"
  shows "assign_move this other st this = st other"
    "assign_move this other st other = SimpleVector_default"
  using assms
  by (simp_all add: assign_move_def SimpleVector_move_def ArrayPtr_move_def swap_vec_def
      ArrayPtr_swap_def Clear_def SimpleVector_default_def)

lemma inv_swap: "fst (swap_vec s other) = other" "snd (swap_vec s other) = s"
  by (simp_all add: swap_vec_def ArrayPtr_swap_def)

lemma inv_Reserve:
  assumes "vec_inv s" "Reserve T c s = Inr s'"
  shows "vec_inv s' \<and> m_size s' = m_size s"
proof -
  obtain s2 where "Reserve T c s = Inr s2" "vec_inv s2" "m_size s2 = m_size s"
    using Reserve_spec[OF assms(1), of T c] by blast
  then show ?thesis
    using assms(2) by simp
qed

lemma inv_PushBack:
  assumes "vec_inv s" "PushBack T x s = Inr s'"
  shows "vec_inv s' \<and> m_size s' = m_size s + 1"
proof -
  obtain s2 where "PushBack T x s = Inr s2" "vec_inv s2" "m_size s2 = Suc (m_size s)"
    using PushBack_spec[OF assms(1), of T x] by blast
  then show ?thesis
    using assms(2) by simp
qed

lemma inv_PushBack_rvalue:
  assumes "vec_inv s" "PushBack_rvalue T x s = Inr (s', x')"
  shows "vec_inv s' \<and> m_size s' = m_size s + 1"
proof -
  have "PushBack T x s = Inr s'"
    using assms(2) by (auto simp: PushBack_rvalue_PushBack split: sum.splits)
  then show ?thesis
    using assms(1) by (rule inv_PushBack[rotated])
qed

lemma inv_Insert:
  assumes "vec_inv s" "Insert T pos x s = Inr (it, s')"
  shows "vec_inv s' \<and> m_size s' = m_size s + 1"
proof -
  have pos: "pos \<le> m_size s"
    using Insert_Inr_pos[OF assms] .
  obtain s2 where "Insert T pos x s = Inr (pos, s2)" "vec_inv s2" "m_size s2 = Suc (m_size s)"
    using Insert_spec[OF assms(1) pos, of T x] by blast
  then show ?thesis
    using assms(2) by simp
qed

lemma inv_Insert_rvalue:
  assumes "vec_inv s" "Insert_rvalue T pos x s = Inr (it, s', x')"
  shows "vec_inv s' \<and> m_size s' = m_size s + 1"
proof -
  have "Insert T pos x s = Inr (it, s')"
    using assms(2) by (auto simp: Insert_rvalue_Insert split: sum.splits)
  then show ?thesis
    using assms(1) by (rule inv_Insert[rotated])
qed

lemma inv_PopBack:
  assumes "vec_inv s"
  shows "vec_inv (PopBack s) \<and> m_size (PopBack s) = m_size s - 1"
  using assms by (auto simp: PopBack_def vec_inv_def)

lemma inv_Erase:
  assumes "vec_inv s" "Erase T pos s = Inr (it, s')"
  shows "vec_inv s' \<and> m_size s' = m_size s - 1"
proof (cases "m_size s > 0")
  case True
  then have pos: "pos < m_size s"
    using assms(2) by (simp add: Erase_def split: if_splits)
  obtain s2 where "Erase T pos s = Inr (pos, s2)" "vec_inv s2" "m_size s2 = m_size s - 1"
    using Erase_spec[OF assms(1) pos, of T] by blast
  then show ?thesis
    using assms(2) by simp
next
  case False
  then show ?thesis
    using assms by (simp add: Erase_def)
qed

lemma inv_Clear:
  assumes "vec_inv s"
  shows "vec_inv (Clear s) \<and> m_size (Clear s) = 0"
  using assms by (simp add: Clear_def vec_inv_def)

lemma inv_Resize:
  assumes "vec_inv s" "Resize T k s = Inr s'"
  shows "vec_inv s' \<and> m_size s' = k"
  by (rule Resize_spec[OF assms(1), of T k]) (use assms(2) in simp)

lemma reach_inv: "reach T n s \<Longrightarrow> vec_inv s \<and> m_size s = n"
proof (induct rule: reach.induct)
  case r_default
  show ?case by (rule inv_default)
next
  case (r_size n)
  show ?case by (rule inv_size)
next
  case (r_value n v)
  show ?case by (rule inv_value)
next
  case (r_init xs)
  show ?case by (rule inv_init)
next
  case (r_reserve c s)
  then show ?case by (rule inv_reserve)
next
  case (r_copy n other s)
  then show ?case using inv_copy[of other T s] by simp
next
  case (r_move n other)
  then show ?case by (simp add: inv_move)
next
  case (r_moved_from n other)
  show ?case by (simp add: inv_move inv_default)
next
  case (r_assign_copy n st this m rhs st')
  then show ?case using inv_assign_copy[of st rhs this T st'] by simp
next
  case (r_assign_move n st this m other)
  then show ?case by (simp add: inv_assign_move)
next
  case (r_assign_moved_from n st this m other)
  then show ?case by (simp add: inv_assign_move inv_default)
next
  case (r_swap_this n s m other)
  then show ?case by (simp add: inv_swap)
next
  case (r_swap_other n s m other)
  then show ?case by (simp add: inv_swap)
next
  case (r_Reserve n s c s')
  then show ?case using inv_Reserve[of s T c s'] by simp
next
  case (r_PushBack n s x s')
  then show ?case using inv_PushBack[of s T x s'] by simp
next
  case (r_PushBack_rvalue n s x s' x')
  then show ?case using inv_PushBack_rvalue[of s T x s' x'] by simp
next
  case (r_Insert n s pos x it s')
  then show ?case using inv_Insert[of s T pos x it s'] by simp
next
  case (r_Insert_rvalue n s pos x it s' x')
  then show ?case using inv_Insert_rvalue[of s T pos x it s' x'] by simp
next
  case (r_PopBack n s)
  then show ?case using inv_PopBack[of s] by simp
next
  case (r_Erase n s pos it s')
  then show ?case using inv_Erase[of s T pos it s'] by simp
next
  case (r_Clear n s)
  then show ?case using inv_Clear[of s] by simp
next
  case (r_Resize n s k s')
  then show ?case using inv_Resize[of s T k s'] by simp
qed

text \<open>
  C1: every vector that a constructor and finitely many operations (\<open>PushBack\<close>,
  \<open>PopBack\<close>, \<open>Insert\<close>, \<open>Erase\<close>, \<open>Clear\<close>, \<open>Resize\<close>, \<open>Reserve\<close>, \<open>swap\<close>, copying and moving)
  lead to has \<open>0 \<le> size \<le> capacity\<close>, and \<open>GetSize()\<close> is the number of elements
  counted along the way: those pushed and inserted minus those popped, erased and
  cleared.
\<close>

theorem size_within_capacity_and_counted:
  assumes "reach T n s"
  shows "0 \<le> m_size s \<and> m_size s \<le> m_capacity s \<and> GetSize s = n"
  using reach_inv[OF assms] by (simp add: vec_inv_def GetSize_def)

theorem size_within_capacity_and_counted_witness:
  "reach int_type (0 + 1 + 1 + 1 - 1) \<lparr>m_items = [15, 20, 20, 0], m_size = 2, m_capacity = 4\<rparr>
   \<and> GetSize \<lparr>m_items = [15, 20, 20, 0::int], m_size = 2, m_capacity = 4\<rparr> = 2
   \<and> reach int_type 5 \<lparr>m_items = [15, 20, 0, 0, 0, 0, 0, 0], m_size = 5, m_capacity = 8\<rparr>
   \<and> reach int_type 0 \<lparr>m_items = [15, 20, 0, 0, 0, 0, 0, 0], m_size = 0, m_capacity = 8\<rparr>"
proof -
  let ?s1 = "\<lparr>m_items = [10::int], m_size = 1, m_capacity = 1\<rparr>"
  let ?s2 = "\<lparr>m_items = [10, 20::int], m_size = 2, m_capacity = 2\<rparr>"
  let ?s3 = "\<lparr>m_items = [10, 15, 20, 0::int], m_size = 3, m_capacity = 4\<rparr>"
  let ?s4 = "\<lparr>m_items = [15, 20, 20, 0::int], m_size = 2, m_capacity = 4\<rparr>"
  let ?s5 = "\<lparr>m_items = [15, 20, 0, 0, 0, 0, 0, 0::int], m_size = 5, m_capacity = 8\<rparr>"
  let ?s6 = "\<lparr>m_items = [15, 20, 0, 0, 0, 0, 0, 0::int], m_size = 0, m_capacity = 8\<rparr>"
  have e1: "PushBack int_type 10 SimpleVector_default = Inr ?s1" by code_simp
  have e2: "PushBack int_type 20 ?s1 = Inr ?s2" by code_simp
  have e3: "Insert int_type 1 15 ?s2 = Inr (1, ?s3)" by code_simp
  have e4: "Erase int_type 0 ?s3 = Inr (0, ?s4)" by code_simp
  have e5: "Resize int_type 5 ?s4 = Inr ?s5" by code_simp
  have e6: "Clear ?s5 = ?s6" by (simp add: Clear_def)
  have r1: "reach int_type (0 + 1) ?s1"
    using r_PushBack[OF r_default e1] .
  have r2: "reach int_type (0 + 1 + 1) ?s2"
    using r_PushBack[OF r1 e2] .
  have r3: "reach int_type (0 + 1 + 1 + 1) ?s3"
    using r_Insert[OF r2 e3] .
  have r4: "reach int_type (0 + 1 + 1 + 1 - 1) ?s4"
    using r_Erase[OF r3 e4] .
  have r5: "reach int_type 5 ?s5"
    using r_Resize[OF r4 e5] .
  have r6: "reach int_type 0 ?s6"
    using r_Clear[OF r5] e6 by simp
  show ?thesis
    using r4 r5 r6 size_within_capacity_and_counted[OF r4] by simp
qed

section \<open>The slots beyond the size\<close>

lemma fresh_slots_default:
  "moved T (dflt T) = dflt T \<Longrightarrow>
   map (\<lambda>i. (moved T ^^ i) (dflt T)) [m..<n] = replicate (n - m) (dflt T)"
  by (simp add: funpow_fixed map_replicate_const)

lemma slack_IncreaseCapacity:
  assumes "vec_inv s" "m_size s \<le> n" "moved T (dflt T) = dflt T"
    "IncreaseCapacity T n s = Inr s'"
  shows "vec_inv s' \<and> slack_default T s'"
  by (rule IncreaseCapacity_spec[OF assms(1,2), of T])
     (use assms(3,4) in \<open>simp add: slack_default_def fresh_slots_default\<close>)

lemma slack_IsSizeEqualsCapacity:
  assumes "vec_inv s" "slack_default T s" "moved T (dflt T) = dflt T"
    "IsSizeEqualsCapacity T s = Inr s1"
  shows "vec_inv s1 \<and> slack_default T s1 \<and> m_size s1 = m_size s \<and> m_size s1 < m_capacity s1"
proof (cases "m_size s = m_capacity s")
  case True
  let ?n = "if m_capacity s = 0 then 1 else 2 * m_capacity s"
  have le: "m_size s \<le> ?n" using True by simp
  have inc: "IncreaseCapacity T ?n s = Inr s1"
    using assms(4) True by (simp add: IsSizeEqualsCapacity_def)
  have "vec_inv s1 \<and> slack_default T s1"
    using slack_IncreaseCapacity[OF assms(1) le assms(3) inc] .
  moreover have "m_size s1 = m_size s \<and> m_size s1 < m_capacity s1"
    by (rule IsSizeEqualsCapacity_spec[OF assms(1), of T]) (use assms(4) in simp)
  ultimately show ?thesis by simp
next
  case False
  then have "s1 = s"
    using assms(4) by (simp add: IsSizeEqualsCapacity_def)
  then show ?thesis
    using assms(1,2) False by (simp add: vec_inv_def)
qed

lemma slack_after_write:
  assumes "vec_inv s1" "slack_default T s1" "m_size s1 < m_capacity s1"
    "length raw = m_capacity s1" "drop (Suc (m_size s1)) raw = drop (Suc (m_size s1)) (m_items s1)"
  shows "slack_default T (s1\<lparr>m_items := raw, m_size := Suc (m_size s1)\<rparr>)"
proof -
  have "drop (Suc (m_size s1)) (m_items s1) = tl (drop (m_size s1) (m_items s1))"
    by (simp add: drop_Suc tl_drop)
  also have "\<dots> = replicate (m_capacity s1 - Suc (m_size s1)) (dflt T)"
    using assms(2) by (simp add: slack_default_def)
  finally show ?thesis
    using assms(5) by (simp add: slack_default_def)
qed

lemma slack_PushBack:
  assumes "vec_inv s" "slack_default T s" "moved T (dflt T) = dflt T" "PushBack T x s = Inr s'"
  shows "vec_inv s' \<and> slack_default T s'"
proof -
  obtain s1 where s1: "IsSizeEqualsCapacity T s = Inr s1"
    using assms(4) by (auto simp: PushBack_def split: sum.splits)
  have f: "vec_inv s1" "slack_default T s1" "m_size s1 < m_capacity s1"
    using slack_IsSizeEqualsCapacity[OF assms(1,2,3) s1] by simp_all
  have len: "length (m_items s1) = m_capacity s1"
    using f(1) by (simp add: vec_inv_def)
  have s': "s' = s1\<lparr>m_items := (m_items s1)[m_size s1 := x], m_size := Suc (m_size s1)\<rparr>"
    using assms(4) s1 f(3) len by (simp add: PushBack_def)
  have "slack_default T s'"
    unfolding s' using f len by (intro slack_after_write) simp_all
  moreover have "vec_inv s'"
    using inv_PushBack[OF assms(1,4)] by simp
  ultimately show ?thesis by simp
qed

lemma slack_Insert:
  assumes "vec_inv s" "slack_default T s" "moved T (dflt T) = dflt T"
    "Insert T pos x s = Inr (it, s')"
  shows "vec_inv s' \<and> slack_default T s'"
proof -
  obtain s1 where s1: "IsSizeEqualsCapacity T s = Inr s1"
    using assms(4) by (auto simp: Insert_def Let_def split: sum.splits)
  have f: "vec_inv s1" "slack_default T s1" "m_size s1 = m_size s" "m_size s1 < m_capacity s1"
    using slack_IsSizeEqualsCapacity[OF assms(1,2,3) s1] by simp_all
  have pos: "pos \<le> m_size s"
    using Insert_Inr_pos[OF assms(1,4)] .
  have inv: "vec_inv s'" and sz: "m_size s' = Suc (m_size s1)"
    using inv_Insert[OF assms(1,4)] f(3) by simp_all
  have cap: "m_capacity s' = m_capacity s1"
    using assms(4) s1 by (auto simp: Insert_def Let_def split: if_splits)
  have dr: "drop (Suc (m_size s1)) (m_items s') = drop (Suc (m_size s1)) (m_items s1)"
    by (rule Insert_spec[OF assms(1) pos, of T x]) (use assms(4) s1 f(3) in simp)
  have "slack_default T (s1\<lparr>m_items := m_items s', m_size := Suc (m_size s1)\<rparr>)"
    using f inv cap dr by (intro slack_after_write) (simp_all add: vec_inv_def)
  then have "slack_default T s'"
    using sz cap by (simp add: slack_default_def)
  then show ?thesis
    using inv by simp
qed

lemma slack_Reserve:
  assumes "vec_inv s" "slack_default T s" "moved T (dflt T) = dflt T" "Reserve T c s = Inr s'"
  shows "vec_inv s' \<and> slack_default T s'"
proof (cases "m_capacity s < c")
  case True
  then have le: "m_size s \<le> c"
    using assms(1) by (simp add: vec_inv_def)
  have "IncreaseCapacity T c s = Inr s'"
    using assms(4) True by (simp add: Reserve_def)
  then show ?thesis
    using slack_IncreaseCapacity[OF assms(1) le assms(3)] by simp
next
  case False
  then show ?thesis
    using assms by (simp add: Reserve_def)
qed

lemma slack_Resize:
  assumes "vec_inv s" "slack_default T s" "moved T (dflt T) = dflt T" "m_size s \<le> k"
    "Resize T k s = Inr s'"
  shows "vec_inv s' \<and> slack_default T s'"
proof -
  have le: "m_size s \<le> m_capacity s" and len: "length (m_items s) = m_capacity s"
    using assms(1) by (simp_all add: vec_inv_def)
  have inv: "vec_inv s'" and sz: "m_size s' = k"
    using inv_Resize[OF assms(1,5)] by simp_all
  have cap: "m_capacity s' = (if m_capacity s < k then max k (2 * m_capacity s) else m_capacity s)"
    by (rule Resize_spec[OF assms(1), of T k]) (use assms(5) in simp)
  consider (grow) "m_capacity s < k" | (expose) "m_size s < k" "k \<le> m_capacity s"
    | (same) "k = m_size s"
    using assms(4) by linarith
  then have "slack_default T s'"
  proof cases
    case grow
    have "m_items s' = take (m_size s) (m_items s) @
            map (\<lambda>i. (moved T ^^ i) (dflt T)) [m_size s..<max k (2 * m_capacity s)]"
      by (rule Resize_spec[OF assms(1), of T k]) (use assms(5) grow in simp)
    then show ?thesis
      using grow le len sz cap assms(3)
      by (simp add: slack_default_def fresh_slots_default)
  next
    case expose
    have "m_items s' = take (m_size s) (m_items s) @ replicate (k - m_size s) (dflt T)
            @ drop k (m_items s)"
      by (rule Resize_spec[OF assms(1), of T k]) (use assms(5) expose in simp)
    moreover have "drop k (m_items s) = replicate (m_capacity s - k) (dflt T)"
    proof -
      have "drop k (m_items s) = drop (k - m_size s) (drop (m_size s) (m_items s))"
        using expose by simp
      also have "\<dots> = replicate (m_capacity s - k) (dflt T)"
        using assms(2) expose by (simp add: slack_default_def)
      finally show ?thesis .
    qed
    ultimately show ?thesis
      using expose le len sz cap by (simp add: slack_default_def)
  next
    case same
    have "m_items s' = m_items s"
      by (rule Resize_spec[OF assms(1), of T k]) (use assms(5) same in simp)
    then show ?thesis
      using same assms(2) sz cap le by (simp add: slack_default_def)
  qed
  then show ?thesis
    using inv by simp
qed

lemma grown_inv:
  assumes "grown T s" "moved T (dflt T) = dflt T"
  shows "vec_inv s \<and> slack_default T s"
  using assms
proof (induct rule: grown.induct)
  case g_default
  show ?case by (simp add: SimpleVector_default_def vec_inv_def slack_default_def)
next
  case (g_size n)
  show ?case by (simp add: SimpleVector_size_def ArrayPtr_size_eq vec_inv_def slack_default_def)
next
  case (g_value n v)
  show ?case by (simp add: SimpleVector_value_def ArrayPtr_value_eq vec_inv_def slack_default_def)
next
  case (g_init xs)
  show ?case by (simp add: SimpleVector_init_eq vec_inv_def slack_default_def)
next
  case (g_reserve c s)
  have d: "vec_inv (SimpleVector_default :: 'a SimpleVector)"
    "m_size (SimpleVector_default :: 'a SimpleVector) \<le> c"
    by (simp_all add: SimpleVector_default_def vec_inv_def)
  have "IncreaseCapacity T c SimpleVector_default = Inr s"
    using g_reserve(1) by (simp add: SimpleVector_reserve_def)
  then show ?case
    using slack_IncreaseCapacity[OF d g_reserve(2)] by simp
next
  case (g_copy other s)
  then have inv: "vec_inv other" by simp
  have "s = \<lparr>m_items = contents other, m_size = m_size other, m_capacity = m_size other\<rparr>"
    using SimpleVector_copy_eq[OF inv, of T] g_copy(3) by simp
  then show ?case
    using inv by (simp add: vec_inv_def contents_def slack_default_def)
next
  case (g_move other)
  then show ?case by (simp add: inv_move)
next
  case (g_moved_from other)
  show ?case
    by (simp add: inv_move SimpleVector_default_def vec_inv_def slack_default_def)
next
  case (g_assign_copy st this rhs st')
  then have inv: "vec_inv (st rhs)" by simp
  show ?case
    using assign_copy_eq[OF inv g_assign_copy(5,6)] inv
    by (simp add: vec_inv_def contents_def slack_default_def)
next
  case (g_assign_move st this other)
  then show ?case by (simp add: inv_assign_move)
next
  case (g_assign_moved_from st this other)
  then show ?case
    by (simp add: inv_assign_move SimpleVector_default_def vec_inv_def slack_default_def)
next
  case (g_swap_this s other)
  then show ?case by (simp add: inv_swap)
next
  case (g_swap_other s other)
  then show ?case by (simp add: inv_swap)
next
  case (g_Reserve s c s')
  then show ?case using slack_Reserve[of s T c s'] by simp
next
  case (g_PushBack s x s')
  then show ?case using slack_PushBack[of s T x s'] by simp
next
  case (g_Insert s pos x it s')
  then show ?case using slack_Insert[of s T pos x it s'] by simp
next
  case (g_Resize s k s')
  then show ?case using slack_Resize[of s T k s'] by simp
qed

text \<open>
  C8, as the code has it: for an element type whose default value is still the
  default value after it was moved from, every vector that a constructor and
  finitely many operations other than \<open>PopBack\<close>, \<open>Erase\<close>, \<open>Clear\<close> and a shrinking
  \<open>Resize\<close> lead to has a block of exactly \<open>capacity\<close> slots whose slots
  \<open>[size, capacity)\<close> hold the default value. \<open>PopBack\<close> and \<open>Clear\<close> leave the block as
  it is, and \<open>Erase\<close> leaves in the slot it gives up the last element as the move
  left it, or the erased element itself when it was the last: none of the three
  resets a slot to the default value.
\<close>

theorem slack_default_until_removal:
  "(grown T s \<and> moved T (dflt T) = dflt T \<longrightarrow>
      length (m_items s) = m_capacity s \<and> slack_default T s)
   \<and> m_items (PopBack s) = m_items s
   \<and> m_items (Clear s) = m_items s
   \<and> (vec_inv s \<and> pos < m_size s \<longrightarrow>
        (\<exists>s'. Erase T pos s = Inr (pos, s')
           \<and> m_items s' ! (m_size s - 1) =
               (if Suc pos < m_size s then moved T (m_items s ! (m_size s - 1))
                else m_items s ! (m_size s - 1))))"
proof -
  have g: "length (m_items s) = m_capacity s \<and> slack_default T s"
    if "grown T s" "moved T (dflt T) = dflt T"
    using grown_inv[OF that] by (simp add: vec_inv_def)
  have e: "\<exists>s'. Erase T pos s = Inr (pos, s')
           \<and> m_items s' ! (m_size s - 1) =
               (if Suc pos < m_size s then moved T (m_items s ! (m_size s - 1))
                else m_items s ! (m_size s - 1))"
    if "vec_inv s" "pos < m_size s"
    by (rule Erase_spec[OF that, of T]) blast
  show ?thesis
    using g e by (simp add: PopBack_def Clear_def)
qed

theorem slack_default_until_removal_witness:
  "grown int_type \<lparr>m_items = [10, 15, 20, 0], m_size = 3, m_capacity = 4\<rparr>
   \<and> moved int_type (dflt int_type) = dflt int_type
   \<and> slack_default int_type \<lparr>m_items = [10, 15, 20, 0], m_size = 3, m_capacity = 4\<rparr>
   \<and> vec_inv \<lparr>m_items = [10, 15, 20, 0::int], m_size = 3, m_capacity = 4\<rparr>
   \<and> Erase int_type 0 \<lparr>m_items = [10, 15, 20, 0], m_size = 3, m_capacity = 4\<rparr>
       = Inr (0, \<lparr>m_items = [15, 20, 20, 0], m_size = 2, m_capacity = 4\<rparr>)"
proof -
  let ?s1 = "\<lparr>m_items = [10::int], m_size = 1, m_capacity = 1\<rparr>"
  let ?s2 = "\<lparr>m_items = [10, 20::int], m_size = 2, m_capacity = 2\<rparr>"
  let ?s3 = "\<lparr>m_items = [10, 15, 20, 0::int], m_size = 3, m_capacity = 4\<rparr>"
  let ?s4 = "\<lparr>m_items = [15, 20, 20, 0::int], m_size = 2, m_capacity = 4\<rparr>"
  have e1: "PushBack int_type 10 SimpleVector_default = Inr ?s1" by code_simp
  have e2: "PushBack int_type 20 ?s1 = Inr ?s2" by code_simp
  have e3: "Insert int_type 1 15 ?s2 = Inr (1, ?s3)" by code_simp
  have e4: "Erase int_type 0 ?s3 = Inr (0, ?s4)" by code_simp
  have g: "grown int_type ?s3"
    using g_Insert[OF g_PushBack[OF g_PushBack[OF g_default e1] e2] e3] .
  have ty: "moved int_type (dflt int_type) = dflt int_type"
    by (simp add: int_type_def)
  have inv: "vec_inv ?s3" by (simp add: vec_inv_def)
  show ?thesis
    using g ty inv e4 slack_default_until_removal[of int_type ?s3 0]
    by simp
qed

theorem slack_not_default_after_removal_counterexample:
  "PushBack int_type 5 SimpleVector_default = Inr \<lparr>m_items = [5], m_size = 1, m_capacity = 1\<rparr>
   \<and> PopBack \<lparr>m_items = [5::int], m_size = 1, m_capacity = 1\<rparr>
       = \<lparr>m_items = [5], m_size = 0, m_capacity = 1\<rparr>
   \<and> Clear \<lparr>m_items = [5::int], m_size = 1, m_capacity = 1\<rparr>
       = \<lparr>m_items = [5], m_size = 0, m_capacity = 1\<rparr>
   \<and> Erase int_type 0 \<lparr>m_items = [5], m_size = 1, m_capacity = 1\<rparr>
       = Inr (0, \<lparr>m_items = [5], m_size = 0, m_capacity = 1\<rparr>)
   \<and> \<not> slack_default int_type \<lparr>m_items = [5], m_size = 0, m_capacity = 1\<rparr>
   \<and> m_items \<lparr>m_items = [5::int], m_size = 0, m_capacity = 1\<rparr> ! 0 \<noteq> dflt int_type"
  by code_simp

end
